theory Spec2Isabelle
  imports Main
begin

section \<open>Progress state (progressService.ts, lines 14-44)\<close>

text \<open>
  A promise is an object of the JavaScript heap; the source compares promises by
  reference (\<open>!==\<close>), so a promise is modelled by its address.
  JavaScript numbers are modelled by \<open>int\<close>: the units of work, the delays and the
  clock readings of \<open>Date.now()\<close> are integers in every caller, and integer addition
  and subtraction below \<open>2^53\<close> are exact. An optional argument or an
  \<open>undefined\<close> field is \<open>None\<close>.
\<close>

type_synonym promise = nat

datatype ProgressState =
    NoneProgressState
  | DoneProgressState
  | InfiniteProgressState
  | WhileProgressState (whilePromise: promise) (whileStart: int) (whileDelay: int)
  | WorkProgressState (total: "int option") (worked: "int option")

text \<open>The \<open>type\<close> field on which the source dispatches.\<close>

datatype state_type = NoneType | DoneType | InfiniteType | WhileType | WorkType

fun type_of :: "ProgressState \<Rightarrow> state_type" where
  "type_of NoneProgressState = NoneType"
| "type_of DoneProgressState = DoneType"
| "type_of InfiniteProgressState = InfiniteType"
| "type_of (WhileProgressState p s d) = WhileType"
| "type_of (WorkProgressState t k) = WorkType"

text \<open>JavaScript truthiness of an optional number: \<open>undefined\<close> and \<open>0\<close> are falsy.\<close>

fun truthy :: "int option \<Rightarrow> bool" where
  "truthy None = False"
| "truthy (Some n) = (n \<noteq> 0)"

section \<open>The widget\<close>

text \<open>
  Modelled from the spec: the progress bar (\<open>vs/base/browser/ui/progressbar\<close>) is not
  part of the file; section 6 of the spec lists its operations. Nothing is assumed of
  what it does with them: it is modelled by the calls it receives, oldest first, each
  stamped with the clock reading at which it was made. The one query the reporters make,
  \<open>hasTotal()\<close>, is answered by the environment: its answer is an argument of the
  operation that asks. Its operations are taken to return normally.
\<close>

datatype barcall =
    BarInfinite
  | BarTotal int
  | BarWorked int
  | BarShow "int option"
  | BarStop
  | BarHide

type_synonym ProgressBar = "(int \<times> barcall) list"

section \<open>Promises and the microtask queue\<close>

datatype outcome = Fulfilled | Rejected

text \<open>
  The callbacks this file registers on promises:
  \<^item> \<open>ScopedStop p d\<close>: the closure \<open>stop\<close> of \<open>ScopedProgressService.showWhile\<close>,
    which captured \<open>promise = p\<close>, registered by \<open>promise.then(stop, stop)\<close>; \<open>d\<close> is
    the promise which that \<open>then\<close> returned;
  \<^item> \<open>UnscopedStop d\<close>: the same for \<open>ProgressService.showWhile\<close>;
  \<^item> \<open>AllElement r\<close>: the element callbacks of \<open>Promise.all\<close>, whose result is \<open>r\<close>.
\<close>

datatype reaction =
    ScopedStop promise promise
  | UnscopedStop promise
  | AllElement promise

text \<open>
  Where a promise comes from: created by a caller (and settled by the caller's
  operation), the result of \<open>Promise.all([p, q])\<close>, or the result of \<open>p.then(...)\<close>.
\<close>

datatype origin = Caller | All promise promise | Then promise

text \<open>
  A promise object: \<open>settled\<close> is \<open>None\<close> while pending, and afterwards the outcome
  with the clock reading of the settlement; \<open>reactions\<close> are the callbacks registered by
  \<open>then\<close>, in registration order; \<open>remaining\<close> is the element counter of a
  \<open>Promise.all\<close> result.
\<close>

record cell =
  origin :: origin
  settled :: "(outcome \<times> int) option"
  reactions :: "reaction list"
  remaining :: nat

text \<open>
  A scope identifier is a string; without strict null checks the constructor also
  receives \<open>undefined\<close> and \<open>null\<close>.
\<close>

datatype scope_id = Undefined | Null | Id string

text \<open>
  The world: the promises, the microtask queue and the clock of the JavaScript
  runtime, the widget, and the fields of the scoped reporter (\<open>scopeId\<close>,
  \<open>isActive\<close>, \<open>progressState\<close>). The unscoped reporter has no field but the
  widget, which the two may share.
\<close>

record world =
  heap :: "cell list"
  jobs :: "(reaction \<times> outcome) list"
  now :: int
  progressbar :: ProgressBar
  scopeId :: scope_id
  isActive :: bool
  progressState :: ProgressState

definition bar :: "barcall list \<Rightarrow> world \<Rightarrow> world" where
  "bar cs w = w\<lparr>progressbar := progressbar w @ map (\<lambda>c. (now w, c)) cs\<rparr>"

definition newPromise :: "origin \<Rightarrow> nat \<Rightarrow> world \<Rightarrow> promise \<times> world" where
  "newPromise org k w =
     (length (heap w),
      w\<lparr>heap := heap w @ [\<lparr>origin = org, settled = None, reactions = [], remaining = k\<rparr>]\<rparr>)"

text \<open>Settling a pending promise queues its callbacks; a settled promise stays as it is.\<close>

definition settle :: "promise \<Rightarrow> outcome \<Rightarrow> world \<Rightarrow> world" where
  "settle p oc w =
     (if p < length (heap w) \<and> settled (heap w ! p) = None then
        w\<lparr>heap := (heap w)[p := (heap w ! p)\<lparr>settled := Some (oc, now w), reactions := []\<rparr>],
          jobs := jobs w @ map (\<lambda>r. (r, oc)) (reactions (heap w ! p))\<rparr>
      else w)"

text \<open>
  \<open>p.then(f, f)\<close> for a callback \<open>f\<close>: on a pending promise the callback is stored, on a
  settled one it is queued at once.
\<close>

definition then_reaction :: "promise \<Rightarrow> reaction \<Rightarrow> world \<Rightarrow> world" where
  "then_reaction p r w =
     (if p < length (heap w) then
        (case settled (heap w ! p) of
           None \<Rightarrow> w\<lparr>heap := (heap w)[p := (heap w ! p)\<lparr>reactions := reactions (heap w ! p) @ [r]\<rparr>]\<rparr>
         | Some (oc, t) \<Rightarrow> w\<lparr>jobs := jobs w @ [(r, oc)]\<rparr>)
      else w)"

text \<open>\<open>Promise.all([p, q])\<close>: a new promise with two elements, subscribed to \<open>p\<close>, then to \<open>q\<close>.\<close>

definition Promise_all :: "promise \<Rightarrow> promise \<Rightarrow> world \<Rightarrow> promise \<times> world" where
  "Promise_all p q w =
     (let (r, w1) = newPromise (All p q) 2 w
      in (r, then_reaction q (AllElement r) (then_reaction p (AllElement r) w1)))"

section \<open>ScopedProgressService (lines 79-241)\<close>

text \<open>
  Modelled from the spec: \<open>types.isUndefinedOrNull\<close> belongs to
  \<open>vs/base/common/types\<close>, which is not part of the file. It is taken to hold of
  \<open>undefined\<close> and of \<open>null\<close> and of nothing else, as its name says and as the comment
  of line 95 (an unscoped service) uses it.
\<close>

fun isUndefinedOrNull :: "scope_id \<Rightarrow> bool" where
  "isUndefinedOrNull Undefined = True"
| "isUndefinedOrNull Null = True"
| "isUndefinedOrNull (Id s) = False"

text \<open>The constructor, lines 85-96, when the clock reads \<open>t\<close>.\<close>

definition ScopedProgressService :: "scope_id \<Rightarrow> bool \<Rightarrow> int \<Rightarrow> world" where
  "ScopedProgressService sid active t =
     \<lparr>heap = [], jobs = [], now = t, progressbar = [], scopeId = sid,
      isActive = (active \<or> isUndefinedOrNull sid), progressState = NoneProgressState\<rparr>"

definition onScopeDeactivated :: "world \<Rightarrow> world" where
  "onScopeDeactivated w = w\<lparr>isActive := False\<rparr>"

text \<open>\<open>delay || 0\<close> (line 212): an absent delay counts as 0.\<close>

definition delay_or_0 :: "int option \<Rightarrow> int" where
  "delay_or_0 delay = (case delay of Some d \<Rightarrow> d | None \<Rightarrow> 0)"

definition doShowWhile :: "int option \<Rightarrow> world \<Rightarrow> world" where
  "doShowWhile delay w = (if isActive w then bar [BarInfinite, BarShow delay] w else w)"

definition remainingDelay :: "ProgressState \<Rightarrow> int \<Rightarrow> int" where
  "remainingDelay s t = whileDelay s - (t - whileStart s)"

definition onScopeActivated :: "world \<Rightarrow> world" where
  "onScopeActivated w0 =
     (let w = w0\<lparr>isActive := True\<rparr>; s = progressState w
      in case s of
           DoneProgressState \<Rightarrow> w
         | WhileProgressState p st d \<Rightarrow>
             doShowWhile
               (if d > 0 \<and> remainingDelay s (now w) > 0 then Some (remainingDelay s (now w))
                else None) w
         | InfiniteProgressState \<Rightarrow> bar [BarInfinite, BarShow None] w
         | WorkProgressState t k \<Rightarrow>
             (let w1 = (if truthy t then bar [BarTotal (the t), BarShow None] w else w)
              in if truthy k then bar [BarWorked (the k), BarShow None] w1 else w1)
         | NoneProgressState \<Rightarrow> w)"

text \<open>Lines 62-72: the scope events reach the reporter only for its own scope.\<close>

definition onScopeOpened :: "scope_id \<Rightarrow> world \<Rightarrow> world" where
  "onScopeOpened sid w = (if sid = scopeId w then onScopeActivated w else w)"

definition onScopeClosed :: "scope_id \<Rightarrow> world \<Rightarrow> world" where
  "onScopeClosed sid w = (if sid = scopeId w then onScopeDeactivated w else w)"

text \<open>
  \<open>show\<close>, lines 142-162 (\<open>show\<close> being a keyword here, the two reporters' methods are
  \<open>scoped_show\<close> and \<open>unscoped_show\<close>, and likewise for \<open>showWhile\<close>). The argument
  is a boolean (\<open>Inl\<close>) or a number (\<open>Inr\<close>); the value of the boolean is never read.
\<close>

definition scoped_show :: "bool + int \<Rightarrow> int option \<Rightarrow> world \<Rightarrow> world" where
  "scoped_show infiniteOrTotal delay w0 =
     (let w = w0\<lparr>progressState :=
                  (case infiniteOrTotal of
                     Inl b \<Rightarrow> InfiniteProgressState
                   | Inr n \<Rightarrow> WorkProgressState (Some n) None)\<rparr>
      in if isActive w then
           (case progressState w of
              InfiniteProgressState \<Rightarrow> bar [BarInfinite, BarShow delay] w
            | WorkProgressState (Some n) k \<Rightarrow> bar [BarTotal n, BarShow delay] w
            | _ \<Rightarrow> w)
         else w)"

text \<open>The handle returned by \<open>show\<close>, lines 164-202. Its closures read only \<open>this\<close>.\<close>

definition handle_total :: "int \<Rightarrow> world \<Rightarrow> world" where
  "handle_total n w0 =
     (let w = w0\<lparr>progressState :=
                  WorkProgressState (Some n)
                    (case progressState w0 of WorkProgressState t k \<Rightarrow> k | _ \<Rightarrow> None)\<rparr>
      in if isActive w then bar [BarTotal n] w else w)"

text \<open>\<open>hasTotal\<close> is the widget's answer to \<open>this.progressbar.hasTotal()\<close>.\<close>

definition handle_worked :: "bool \<Rightarrow> int \<Rightarrow> world \<Rightarrow> world" where
  "handle_worked hasTotal n w0 =
     (if \<not> isActive w0 \<or> hasTotal then
        (let w = w0\<lparr>progressState :=
                     (case progressState w0 of
                        WorkProgressState t k \<Rightarrow>
                          WorkProgressState t (case k of Some k' \<Rightarrow> Some (k' + n) | None \<Rightarrow> Some n)
                      | _ \<Rightarrow> WorkProgressState None (Some n))\<rparr>
         in if isActive w then bar [BarWorked n] w else w)
      else bar [BarInfinite, BarShow None] (w0\<lparr>progressState := InfiniteProgressState\<rparr>))"

definition handle_done :: "world \<Rightarrow> world" where
  "handle_done w0 =
     (let w = w0\<lparr>progressState := DoneProgressState\<rparr>
      in if isActive w then bar [BarStop, BarHide] w else w)"

text \<open>The closure \<open>stop\<close> of \<open>showWhile\<close>, lines 214-227, for the captured \<open>promise\<close>.\<close>

definition stop :: "promise \<Rightarrow> world \<Rightarrow> world" where
  "stop promise w =
     (if type_of (progressState w) = WhileType \<and> whilePromise (progressState w) \<noteq> promise then w
      else (let w1 = w\<lparr>progressState := NoneProgressState\<rparr>
            in if isActive w1 then bar [BarStop, BarHide] w1 else w1))"

text \<open>
  \<open>showWhile\<close>, lines 205-232. The constructor of \<open>WhileProgressState\<close> takes
  \<open>(whilePromise, whileStart, whileDelay)\<close>; line 212 passes \<open>(promise, delay || 0, Date.now())\<close>.
  The result is the promise returned by \<open>promise.then(stop, stop)\<close>.
\<close>

definition scoped_showWhile :: "promise \<Rightarrow> int option \<Rightarrow> world \<Rightarrow> promise \<times> world" where
  "scoped_showWhile promise0 delay w0 =
     (let (promise, w1) =
            (case progressState w0 of
               WhileProgressState q st d \<Rightarrow> Promise_all promise0 q w0
             | _ \<Rightarrow> (promise0, w0));
          w2 = w1\<lparr>progressState :=
                   WhileProgressState promise (delay_or_0 delay) (now w1)\<rparr>;
          w3 = doShowWhile delay w2;
          (d, w4) = newPromise (Then promise) 0 w3
      in (d, then_reaction promise (ScopedStop promise d) w4))"

section \<open>ProgressService (lines 243-286)\<close>

definition unscoped_show :: "bool + int \<Rightarrow> int option \<Rightarrow> world \<Rightarrow> world" where
  "unscoped_show infiniteOrTotal delay w =
     (case infiniteOrTotal of
        Inl b \<Rightarrow> bar [BarInfinite, BarShow delay] w
      | Inr n \<Rightarrow> bar [BarTotal n, BarShow delay] w)"

definition unscoped_total :: "int \<Rightarrow> world \<Rightarrow> world" where
  "unscoped_total n w = bar [BarTotal n] w"

definition unscoped_worked :: "bool \<Rightarrow> int \<Rightarrow> world \<Rightarrow> world" where
  "unscoped_worked hasTotal n w =
     (if hasTotal then bar [BarWorked n] w else bar [BarInfinite, BarShow None] w)"

definition unscoped_done :: "world \<Rightarrow> world" where
  "unscoped_done w = bar [BarStop, BarHide] w"

definition unscoped_showWhile :: "promise \<Rightarrow> int option \<Rightarrow> world \<Rightarrow> promise \<times> world" where
  "unscoped_showWhile promise delay w0 =
     (let w1 = bar [BarInfinite, BarShow delay] w0;
          (d, w2) = newPromise (Then promise) 0 w1
      in (d, then_reaction promise (UnscopedStop d) w2))"

section \<open>Running the callbacks\<close>

text \<open>
  One microtask. A \<open>stop\<close> callback returns \<open>undefined\<close> whatever the outcome it is called
  with, so the promise returned by \<open>then(stop, stop)\<close> is fulfilled. An element callback
  of \<open>Promise.all\<close> rejects the result on the first rejection and fulfils it when the
  last element is fulfilled.
\<close>

fun run_job :: "reaction \<times> outcome \<Rightarrow> world \<Rightarrow> world" where
  "run_job (ScopedStop p d, oc) w = settle d Fulfilled (stop p w)"
| "run_job (UnscopedStop d, oc) w = settle d Fulfilled (bar [BarStop, BarHide] w)"
| "run_job (AllElement r, Rejected) w = settle r Rejected w"
| "run_job (AllElement r, Fulfilled) w =
     (if r < length (heap w) then
        (let c = heap w ! r; k = remaining c - 1;
             w1 = w\<lparr>heap := (heap w)[r := c\<lparr>remaining := k\<rparr>]\<rparr>
         in if k = 0 then settle r Fulfilled w1 else w1)
      else w)"

text \<open>The weight of a world bounds the microtasks still to run.\<close>

definition cell_weight :: "cell \<Rightarrow> nat" where
  "cell_weight c = (if settled c = None then Suc (length (reactions c)) else 0)"

definition weight :: "world \<Rightarrow> nat" where
  "weight w = length (jobs w) + sum_list (map cell_weight (heap w))"

lemma sum_list_cell_update:
  "p < length xs \<Longrightarrow>
   sum_list (map f (xs[p := c])) + f (xs ! p) = sum_list (map f xs) + (f c :: nat)"
proof (induction xs arbitrary: p)
  case Nil
  then show ?case by simp
next
  case (Cons x xs)
  then show ?case by (cases p) auto
qed

lemma weight_bar [simp]: "weight (bar cs w) = weight w"
  by (simp add: weight_def bar_def)

lemma weight_stop [simp]: "weight (stop p w) = weight w"
  by (simp add: stop_def weight_def bar_def Let_def)

lemma weight_settle: "weight (settle p oc w) \<le> weight w"
proof (cases "p < length (heap w) \<and> settled (heap w ! p) = None")
  case True
  then have p: "p < length (heap w)" and s: "settled (heap w ! p) = None" by auto
  let ?c = "(heap w ! p)\<lparr>settled := Some (oc, now w), reactions := []\<rparr>"
  have "sum_list (map cell_weight ((heap w)[p := ?c])) + cell_weight (heap w ! p)
      = sum_list (map cell_weight (heap w)) + cell_weight ?c"
    using p by (rule sum_list_cell_update)
  moreover have "cell_weight ?c = 0"
    by (simp add: cell_weight_def)
  moreover have "cell_weight (heap w ! p) = Suc (length (reactions (heap w ! p)))"
    using s by (simp add: cell_weight_def)
  ultimately have "sum_list (map cell_weight ((heap w)[p := ?c]))
      + Suc (length (reactions (heap w ! p))) = sum_list (map cell_weight (heap w))"
    by simp
  then show ?thesis using p s by (simp add: settle_def weight_def)
next
  case False
  then have "settle p oc w = w" unfolding settle_def by (rule if_not_P)
  then show ?thesis by simp
qed

lemma cell_weight_remaining [simp]: "cell_weight (c\<lparr>remaining := k\<rparr>) = cell_weight c"
  by (simp add: cell_weight_def)

lemma weight_remaining:
  assumes "r < length (heap w)"
  shows "weight (w\<lparr>heap := (heap w)[r := (heap w ! r)\<lparr>remaining := k\<rparr>]\<rparr>) = weight w"
proof -
  have "sum_list (map cell_weight ((heap w)[r := (heap w ! r)\<lparr>remaining := k\<rparr>]))
        + cell_weight (heap w ! r)
      = sum_list (map cell_weight (heap w)) + cell_weight ((heap w ! r)\<lparr>remaining := k\<rparr>)"
    using assms by (rule sum_list_cell_update)
  then show ?thesis by (simp add: weight_def)
qed

lemma weight_remaining_settle:
  assumes "r < length (heap w)"
  shows "weight (settle r oc (w\<lparr>heap := (heap w)[r := (heap w ! r)\<lparr>remaining := k\<rparr>]\<rparr>))
         \<le> weight w"
  using weight_settle [of r oc "w\<lparr>heap := (heap w)[r := (heap w ! r)\<lparr>remaining := k\<rparr>]\<rparr>"]
    weight_remaining [OF assms, of k]
  by simp

lemma weight_run_job: "weight (run_job j w) \<le> weight w"
proof (cases j)
  case (Pair r oc)
  show ?thesis
  proof (cases r)
    case (ScopedStop p d)
    with Pair show ?thesis using weight_settle [of d Fulfilled "stop p w"] by simp
  next
    case (UnscopedStop d)
    with Pair show ?thesis
      using weight_settle [of d Fulfilled "bar [BarStop, BarHide] w"] by simp
  next
    case (AllElement q)
    show ?thesis
    proof (cases oc)
      case Rejected
      with Pair AllElement show ?thesis by (simp add: weight_settle)
    next
      case Fulfilled
      with Pair AllElement show ?thesis
        by (simp add: Let_def weight_remaining weight_remaining_settle)
    qed
  qed
qed

text \<open>
  The microtask queue is run until it is empty, first in, first out. This happens after
  every piece of synchronous code.
\<close>

function drain :: "world \<Rightarrow> world" where
  "drain w = (case jobs w of [] \<Rightarrow> w | j # js \<Rightarrow> drain (run_job j (w\<lparr>jobs := js\<rparr>)))"
  by pat_completeness auto
termination
proof (relation "measure weight")
  show "wf (measure weight)" by simp
next
  fix w :: world and j js
  assume "jobs w = j # js"
  then have "weight (w\<lparr>jobs := js\<rparr>) < weight w" by (simp add: weight_def)
  with weight_run_job [of j "w\<lparr>jobs := js\<rparr>"]
  show "(run_job j (w\<lparr>jobs := js\<rparr>), w) \<in> measure weight" by simp
qed

declare drain.simps [simp del]

lemma drain_Nil [simp]: "jobs w = [] \<Longrightarrow> drain w = w"
  by (subst drain.simps) simp

lemma drain_Cons [simp]:
  "jobs w = j # js \<Longrightarrow> drain w = drain (run_job j (w\<lparr>jobs := js\<rparr>))"
  by (subst drain.simps) simp

section \<open>Events\<close>

text \<open>
  What can happen to a reporter: the clock moves, a caller creates a promise or the
  caller's operation settles it, a scope opens or closes, and the calls of the public
  contract, on the scoped reporter and on the unscoped one (\<open>U...\<close>). A \<open>worked\<close>
  call carries the widget's answer to \<open>hasTotal()\<close>. Each event is a piece of
  synchronous code, after which the microtask queue is run. A call that names a promise
  which does not exist, or a settlement of a promise which is not the caller's, is not
  something the program can receive and changes nothing.
\<close>

datatype event =
    Tick int
  | Create
  | Settle promise outcome
  | ScopeOpened scope_id
  | ScopeClosed scope_id
  | Show "bool + int" "int option"
  | HandleTotal int
  | HandleWorked bool int
  | HandleDone
  | ShowWhile promise "int option"
  | UShow "bool + int" "int option"
  | UTotal int
  | UWorked bool int
  | UDone
  | UShowWhile promise "int option"

fun call :: "event \<Rightarrow> world \<Rightarrow> world" where
  "call (Tick t) w = w\<lparr>now := t\<rparr>"
| "call Create w = snd (newPromise Caller 0 w)"
| "call (Settle p oc) w =
     (if p < length (heap w) \<and> origin (heap w ! p) = Caller then settle p oc w else w)"
| "call (ScopeOpened sid) w = onScopeOpened sid w"
| "call (ScopeClosed sid) w = onScopeClosed sid w"
| "call (Show x delay) w = scoped_show x delay w"
| "call (HandleTotal n) w = handle_total n w"
| "call (HandleWorked hasTotal n) w = handle_worked hasTotal n w"
| "call HandleDone w = handle_done w"
| "call (ShowWhile p delay) w =
     (if p < length (heap w) then snd (scoped_showWhile p delay w) else w)"
| "call (UShow x delay) w = unscoped_show x delay w"
| "call (UTotal n) w = unscoped_total n w"
| "call (UWorked hasTotal n) w = unscoped_worked hasTotal n w"
| "call UDone w = unscoped_done w"
| "call (UShowWhile p delay) w =
     (if p < length (heap w) then snd (unscoped_showWhile p delay w) else w)"

definition step :: "event \<Rightarrow> world \<Rightarrow> world" where
  "step e w = drain (call e w)"

fun run :: "event list \<Rightarrow> world \<Rightarrow> world" where
  "run [] w = w"
| "run (e # es) w = run es (step e w)"

section \<open>Vocabulary of the properties\<close>

subsection \<open>Sequences of total and worked\<close>

text \<open>
  A call of the handle accumulates when it is \<open>total(n)\<close>, or \<open>worked(n)\<close> on a
  reporter that is inactive or whose widget reports a total (the guard of line 178).
\<close>

fun accumulating :: "bool \<Rightarrow> event \<Rightarrow> bool" where
  "accumulating active (HandleTotal n) = True"
| "accumulating active (HandleWorked hasTotal n) = (\<not> active \<or> hasTotal)"
| "accumulating active e = False"

text \<open>The spec's words: the deltas of the \<open>worked\<close> calls, and the last total assigned.\<close>

fun worked_deltas :: "event list \<Rightarrow> int list" where
  "worked_deltas [] = []"
| "worked_deltas (HandleWorked hasTotal n # es) = n # worked_deltas es"
| "worked_deltas (e # es) = worked_deltas es"

fun last_total :: "int option \<Rightarrow> event list \<Rightarrow> int option" where
  "last_total t [] = t"
| "last_total t (HandleTotal n # es) = last_total (Some n) es"
| "last_total t (e # es) = last_total t es"

definition add_deltas :: "int option \<Rightarrow> int list \<Rightarrow> int option" where
  "add_deltas k ds =
     (if ds = [] then k else Some ((case k of Some x \<Rightarrow> x | None \<Rightarrow> 0) + sum_list ds))"

subsection \<open>Promises returned by then\<close>

text \<open>The promise that a \<open>stop\<close> callback settles when it has run.\<close>

fun target :: "reaction \<Rightarrow> promise option" where
  "target (ScopedStop p d) = Some d"
| "target (UnscopedStop d) = Some d"
| "target (AllElement r) = None"

text \<open>
  The heap and the queue are well formed, up to one promise \<open>X\<close> whose callback is
  running: a promise returned by \<open>p.then(stop, stop)\<close> is settled only once \<open>p\<close> is,
  and only as fulfilled; while it is pending its callback is stored in \<open>p\<close> or queued.
\<close>

definition then_ok :: "promise option \<Rightarrow> cell list \<Rightarrow> (reaction \<times> outcome) list \<Rightarrow> bool" where
  "then_ok X h js \<longleftrightarrow>
     (\<forall>d p. d < length h \<longrightarrow> origin (h ! d) = Then p \<longrightarrow>
        p < length h \<and>
        (\<forall>oc t. settled (h ! d) = Some (oc, t) \<longrightarrow> oc = Fulfilled \<and> settled (h ! p) \<noteq> None) \<and>
        (settled (h ! d) = None \<longrightarrow> X \<noteq> Some d \<longrightarrow>
           (settled (h ! p) = None \<longrightarrow> (\<exists>r \<in> set (reactions (h ! p)). target r = Some d)) \<and>
           (settled (h ! p) \<noteq> None \<longrightarrow> (\<exists>j \<in> set js. target (fst j) = Some d))))"

definition react_ok :: "cell list \<Rightarrow> bool" where
  "react_ok h \<longleftrightarrow>
     (\<forall>q r. q < length h \<longrightarrow> r \<in> set (reactions (h ! q)) \<longrightarrow>
        (case r of
           AllElement a \<Rightarrow> a < length h \<and> (\<forall>p. origin (h ! a) \<noteq> Then p)
         | _ \<Rightarrow> (\<forall>d. target r = Some d \<longrightarrow> d < length h \<and> origin (h ! d) = Then q)))"

definition jobs_ok :: "cell list \<Rightarrow> (reaction \<times> outcome) list \<Rightarrow> bool" where
  "jobs_ok h js \<longleftrightarrow>
     (\<forall>r oc. (r, oc) \<in> set js \<longrightarrow>
        (case r of
           AllElement a \<Rightarrow> a < length h \<and> (\<forall>p. origin (h ! a) \<noteq> Then p)
         | _ \<Rightarrow> (\<forall>d. target r = Some d \<longrightarrow>
                 d < length h \<and> (\<exists>q. origin (h ! d) = Then q \<and> settled (h ! q) \<noteq> None))))"

definition wellformed :: "promise option \<Rightarrow> world \<Rightarrow> bool" where
  "wellformed X w \<longleftrightarrow> then_ok X (heap w) (jobs w) \<and> react_ok (heap w) \<and> jobs_ok (heap w) (jobs w)"

subsection \<open>Joined operations\<close>

text \<open>
  A scoped reporter in any state \<open>s\<close>, with any widget history, before any promise
  has been created.
\<close>

definition reporter :: "scope_id \<Rightarrow> bool \<Rightarrow> int \<Rightarrow> ProgressBar \<Rightarrow> ProgressState \<Rightarrow> world" where
  "reporter sid active t calls s =
     \<lparr>heap = [], jobs = [], now = t, progressbar = calls, scopeId = sid,
      isActive = active, progressState = s\<rparr>"

text \<open>
  Two callers create the operations \<open>A\<close> (promise 0) and \<open>B\<close> (promise 1), and
  \<open>showWhile(A, dA)\<close> is followed by \<open>showWhile(B, dB)\<close> while \<open>A\<close> is pending. Promise 2
  is the future returned for \<open>A\<close>, promise 3 the join \<open>Promise.all([B, A])\<close>, promise 4
  the future returned for \<open>B\<close>.
\<close>

definition show_both :: "int option \<Rightarrow> int option \<Rightarrow> event list" where
  "show_both dA dB = [Create, Create, ShowWhile 0 dA, ShowWhile 1 dB]"

subsection \<open>Deactivation and reactivation\<close>

text \<open>The callbacks of the scoped reporter and of \<open>Promise.all\<close>.\<close>

fun scoped_reaction :: "reaction \<Rightarrow> bool" where
  "scoped_reaction (ScopedStop p d) = True"
| "scoped_reaction (AllElement r) = True"
| "scoped_reaction (UnscopedStop d) = False"

text \<open>No callback of an unscoped reporter, which shares the widget, is stored or queued.\<close>

definition scoped_only :: "world \<Rightarrow> bool" where
  "scoped_only w \<longleftrightarrow>
     list_all (\<lambda>j. scoped_reaction (fst j)) (jobs w) \<and>
     list_all (\<lambda>c. list_all scoped_reaction (reactions c)) (heap w)"

text \<open>
  The events that leave a reporter of scope \<open>sid\<close> inactive: everything but the opening
  of its own scope, the calls on an unscoped reporter set aside.
\<close>

fun stays_closed :: "scope_id \<Rightarrow> event \<Rightarrow> bool" where
  "stays_closed sid (ScopeOpened sid') = (sid' \<noteq> sid)"
| "stays_closed sid (UShow x delay) = False"
| "stays_closed sid (UTotal n) = False"
| "stays_closed sid (UWorked hasTotal n) = False"
| "stays_closed sid UDone = False"
| "stays_closed sid (UShowWhile p delay) = False"
| "stays_closed sid e = True"

text \<open>
  The calls that lines 102-138 send to the widget for a state, when the clock reads \<open>t\<close>.
\<close>

fun replay :: "ProgressState \<Rightarrow> int \<Rightarrow> barcall list" where
  "replay NoneProgressState t = []"
| "replay DoneProgressState t = []"
| "replay InfiniteProgressState t = [BarInfinite, BarShow None]"
| "replay (WhileProgressState p st d) t =
     [BarInfinite,
      BarShow (if d > 0 \<and> d - (t - st) > 0 then Some (d - (t - st)) else None)]"
| "replay (WorkProgressState tot k) t =
     (if truthy tot then [BarTotal (the tot), BarShow None] else []) @
     (if truthy k then [BarWorked (the k), BarShow None] else [])"

text \<open>
  Modelled from the spec: the widget is not part of the file. By sections 4.3 and 6,
  \<open>reveal(delay?)\<close> postpones the reveal by \<open>delay\<close> time units and \<open>conceal()\<close> hides
  the widget. \<open>reveal_time r calls\<close> is the clock reading at which the widget is to
  become visible after the given calls (\<open>None\<close>: it stays hidden), \<open>r\<close> being the value
  before them.
\<close>

fun reveal_time :: "int option \<Rightarrow> ProgressBar \<Rightarrow> int option" where
  "reveal_time r [] = r"
| "reveal_time r ((t, BarShow None) # cs) = reveal_time (Some t) cs"
| "reveal_time r ((t, BarShow (Some d)) # cs) = reveal_time (Some (t + d)) cs"
| "reveal_time r ((t, BarHide) # cs) = reveal_time None cs"
| "reveal_time r (c # cs) = reveal_time r cs"

text \<open>
  Modelled from the spec: the widget is not part of the file. By section 6 it is started
  in indeterminate mode or in determinate mode with a total, and stopped by \<open>stop()\<close>.
  \<open>bar_mode m calls\<close> is the mode in which the given calls leave a widget that was in
  mode \<open>m\<close>.
\<close>

datatype mode = Stopped | Indeterminate | Determinate int

fun bar_mode :: "mode \<Rightarrow> ProgressBar \<Rightarrow> mode" where
  "bar_mode m [] = m"
| "bar_mode m ((t, BarInfinite) # cs) = bar_mode Indeterminate cs"
| "bar_mode m ((t, BarTotal n) # cs) = bar_mode (Determinate n) cs"
| "bar_mode m ((t, BarStop) # cs) = bar_mode Stopped cs"
| "bar_mode m (c # cs) = bar_mode m cs"

section \<open>What each primitive leaves alone\<close>

lemma bar_fields [simp]:
  "heap (bar cs w) = heap w" "jobs (bar cs w) = jobs w" "now (bar cs w) = now w"
  "scopeId (bar cs w) = scopeId w" "isActive (bar cs w) = isActive w"
  "progressState (bar cs w) = progressState w"
  "progressbar (bar cs w) = progressbar w @ map (\<lambda>c. (now w, c)) cs"
  by (simp_all add: bar_def)

lemma newPromise_fields [simp]:
  "fst (newPromise org k w) = length (heap w)"
  "heap (snd (newPromise org k w)) =
     heap w @ [\<lparr>origin = org, settled = None, reactions = [], remaining = k\<rparr>]"
  "jobs (snd (newPromise org k w)) = jobs w" "now (snd (newPromise org k w)) = now w"
  "scopeId (snd (newPromise org k w)) = scopeId w"
  "isActive (snd (newPromise org k w)) = isActive w"
  "progressState (snd (newPromise org k w)) = progressState w"
  "progressbar (snd (newPromise org k w)) = progressbar w"
  by (simp_all add: newPromise_def)

lemma settle_fields [simp]:
  "now (settle p oc w) = now w" "scopeId (settle p oc w) = scopeId w"
  "isActive (settle p oc w) = isActive w" "progressState (settle p oc w) = progressState w"
  "progressbar (settle p oc w) = progressbar w"
  "length (heap (settle p oc w)) = length (heap w)"
  by (simp_all add: settle_def)

lemma then_reaction_fields [simp]:
  "now (then_reaction p r w) = now w" "scopeId (then_reaction p r w) = scopeId w"
  "isActive (then_reaction p r w) = isActive w"
  "progressState (then_reaction p r w) = progressState w"
  "progressbar (then_reaction p r w) = progressbar w"
  "length (heap (then_reaction p r w)) = length (heap w)"
  by (simp_all add: then_reaction_def split: option.splits)

lemma Promise_all_fields [simp]:
  "fst (Promise_all p q w) = length (heap w)"
  "now (snd (Promise_all p q w)) = now w" "scopeId (snd (Promise_all p q w)) = scopeId w"
  "isActive (snd (Promise_all p q w)) = isActive w"
  "progressState (snd (Promise_all p q w)) = progressState w"
  "progressbar (snd (Promise_all p q w)) = progressbar w"
  "length (heap (snd (Promise_all p q w))) = Suc (length (heap w))"
  by (simp_all add: Promise_all_def split_beta)

lemma stop_fields [simp]:
  "heap (stop p w) = heap w" "jobs (stop p w) = jobs w" "now (stop p w) = now w"
  "scopeId (stop p w) = scopeId w" "isActive (stop p w) = isActive w"
  by (simp_all add: stop_def Let_def)

lemma run_job_fields [simp]:
  "now (run_job j w) = now w" "scopeId (run_job j w) = scopeId w"
  "isActive (run_job j w) = isActive w" "length (heap (run_job j w)) = length (heap w)"
  by (cases "(j, w)" rule: run_job.cases; simp add: Let_def)+

lemma drain_preserves:
  assumes "\<And>j w. f (run_job j w) = f w" and "\<And>js w. f (w\<lparr>jobs := js\<rparr>) = f w"
  shows "f (drain w) = f w"
proof (induction w rule: drain.induct)
  case (1 w)
  show ?case
  proof (cases "jobs w")
    case Nil
    then show ?thesis by simp
  next
    case (Cons j js)
    with 1 have "f (drain w) = f (run_job j (w\<lparr>jobs := js\<rparr>))" by simp
    then show ?thesis by (simp add: assms)
  qed
qed

lemma drain_fields [simp]:
  "now (drain w) = now w" "scopeId (drain w) = scopeId w"
  "isActive (drain w) = isActive w" "length (heap (drain w)) = length (heap w)"
  by (rule drain_preserves; simp)+

lemma jobs_drain [simp]: "jobs (drain w) = []"
proof (induction w rule: drain.induct)
  case (1 w)
  then show ?case by (cases "jobs w") simp_all
qed

lemma scoped_showWhile_state:
  "progressState (snd (scoped_showWhile p delay w)) =
     WhileProgressState
       (case progressState w of WhileProgressState q st d \<Rightarrow> length (heap w) | _ \<Rightarrow> p)
       (delay_or_0 delay) (now w)"
  by (cases "progressState w") (simp_all add: scoped_showWhile_def split_beta Let_def doShowWhile_def)

section \<open>Replay after reactivation\<close>

lemmas reporter_defs =
  ScopedProgressService_def onScopeDeactivated_def onScopeActivated_def onScopeOpened_def
  onScopeClosed_def doShowWhile_def remainingDelay_def scoped_show_def handle_total_def
  handle_worked_def handle_done_def stop_def scoped_showWhile_def unscoped_show_def
  unscoped_total_def unscoped_worked_def unscoped_done_def unscoped_showWhile_def
  delay_or_0_def

lemmas runtime_defs =
  bar_def newPromise_def settle_def then_reaction_def Promise_all_def step_def Let_def

text \<open>
  What line 212 stores, and what the replay of lines 110-121 computes from it, for a
  reporter in any state but \<open>While\<close>.
\<close>

lemma showWhile_stores:
  "type_of (progressState w) \<noteq> WhileType \<Longrightarrow>
   progressState (snd (scoped_showWhile p delay w)) =
     WhileProgressState p (delay_or_0 delay) (now w)"
  by (cases "progressState w") (simp_all add: scoped_showWhile_state)

lemma replay_remaining_delay:
  assumes "progressState w = WhileProgressState p d t0" and "0 < t0"
    and "now w = t0 + e" and "e < d"
  shows "progressbar (onScopeActivated (onScopeDeactivated w)) =
         progressbar w @ [(t0 + e, BarInfinite), (t0 + e, BarShow (Some (d - e)))]"
  using assms by (simp add: reporter_defs runtime_defs)

text \<open>
  With a clock reading of 0, which only a mocked clock gives, the guard
  \<open>whileDelay > 0\<close> of line 113 tests the clock reading stored by line 212 and fails: the
  replay reveals the widget with no delay.
\<close>

lemma replay_at_clock_zero:
  "progressState (run [Create, ShowWhile 0 (Some 1000)]
      (ScopedProgressService (Id ''panel'') True 0)) = WhileProgressState 0 1000 0 \<and>
   progressbar (run [Create, ShowWhile 0 (Some 1000), ScopeClosed (Id ''panel''), Tick 400,
      ScopeOpened (Id ''panel'')] (ScopedProgressService (Id ''panel'') True 0)) =
     [(0, BarInfinite), (0, BarShow (Some 1000)), (400, BarInfinite), (400, BarShow None)]"
  by (simp add: reporter_defs runtime_defs)

section \<open>Construction\<close>

text \<open>
  C9 (amended). A scoped reporter constructed with \<open>isActive = false\<close> starts active
  exactly when its scope identifier is \<open>undefined\<close> or \<open>null\<close>; with any string,
  the empty one included, it starts inactive.
\<close>

theorem C9_initial_activity:
  "isActive (ScopedProgressService sid False t) = (sid = Undefined \<or> sid = Null)"
  by (cases sid) (simp_all add: ScopedProgressService_def)

text \<open>C9 as stated fails for the empty string: the reporter starts inactive.\<close>

theorem C9_empty_string_counterexample:
  "\<not> isActive (ScopedProgressService (Id '''') False 0)"
  by (simp add: ScopedProgressService_def)

section \<open>show\<close>

text \<open>
  C10. \<open>show(b, delay)\<close> with a boolean \<open>b\<close>, whatever its value: the scoped reporter's
  state becomes \<open>Infinite\<close> and, when it is active, the widget receives
  \<open>infinite().show(delay)\<close>; the unscoped reporter's widget receives the same calls.
\<close>

theorem C10_show_boolean:
  "progressState (scoped_show (Inl b) delay w) = InfiniteProgressState \<and>
   progressbar (scoped_show (Inl b) delay w) =
     progressbar w @ (if isActive w then [(now w, BarInfinite), (now w, BarShow delay)] else []) \<and>
   progressbar (unscoped_show (Inl b) delay w) =
     progressbar w @ [(now w, BarInfinite), (now w, BarShow delay)]"
  by (simp add: reporter_defs runtime_defs)

theorem C10_show_false_witness:
  "progressState (scoped_show (Inl False) (Some 5) (ScopedProgressService (Id ''panel'') True 3))
     = InfiniteProgressState \<and>
   progressbar (scoped_show (Inl False) (Some 5) (ScopedProgressService (Id ''panel'') True 3))
     = [(3, BarInfinite), (3, BarShow (Some 5))] \<and>
   progressbar (unscoped_show (Inl False) (Some 5) (ScopedProgressService (Id ''panel'') True 3))
     = [(3, BarInfinite), (3, BarShow (Some 5))]"
  using C10_show_boolean [of False "Some 5" "ScopedProgressService (Id ''panel'') True 3"]
  by (simp add: ScopedProgressService_def)

section \<open>The handle\<close>

lemma reveal_time_append: "reveal_time r (cs @ cs') = reveal_time (reveal_time r cs) cs'"
  by (induction r cs rule: reveal_time.induct) simp_all

lemma bar_mode_append: "bar_mode m (cs @ cs') = bar_mode (bar_mode m cs) cs'"
  by (induction m cs rule: bar_mode.induct) simp_all

text \<open>
  C8. Two calls of \<open>done()\<close> on an active reporter, the second when the clock reads \<open>t\<close>:
  the state is \<open>Done\<close> after each. The first leaves the widget stopped and hidden,
  whatever it was showing; the second sends \<open>stop().hide()\<close> again and leaves the widget
  as the first left it, stopped and hidden: nothing visible happens a second time.
\<close>

theorem C8_done_twice:
  "isActive w \<Longrightarrow>
   progressState (handle_done w) = DoneProgressState \<and>
   progressState (handle_done ((handle_done w)\<lparr>now := t\<rparr>)) = DoneProgressState \<and>
   progressbar (handle_done ((handle_done w)\<lparr>now := t\<rparr>)) =
     progressbar (handle_done w) @ [(t, BarStop), (t, BarHide)] \<and>
   bar_mode m (progressbar (handle_done w)) = Stopped \<and>
   reveal_time r (progressbar (handle_done w)) = None \<and>
   bar_mode m (progressbar (handle_done ((handle_done w)\<lparr>now := t\<rparr>))) =
     bar_mode m (progressbar (handle_done w)) \<and>
   reveal_time r (progressbar (handle_done ((handle_done w)\<lparr>now := t\<rparr>))) =
     reveal_time r (progressbar (handle_done w))"
  by (simp add: handle_done_def Let_def reveal_time_append bar_mode_append)

theorem C8_done_twice_witness:
  "isActive (scoped_show (Inr 10) None (ScopedProgressService (Id ''panel'') True 0)) \<and>
   progressState (handle_done ((handle_done
      (scoped_show (Inr 10) None (ScopedProgressService (Id ''panel'') True 0)))\<lparr>now := 7\<rparr>))
     = DoneProgressState \<and>
   progressbar (handle_done ((handle_done
      (scoped_show (Inr 10) None (ScopedProgressService (Id ''panel'') True 0)))\<lparr>now := 7\<rparr>))
     = [(0, BarTotal 10), (0, BarShow None), (0, BarStop), (0, BarHide),
        (7, BarStop), (7, BarHide)] \<and>
   bar_mode Stopped (progressbar (scoped_show (Inr 10) None
      (ScopedProgressService (Id ''panel'') True 0))) = Determinate 10 \<and>
   reveal_time None (progressbar (scoped_show (Inr 10) None
      (ScopedProgressService (Id ''panel'') True 0))) = Some 0 \<and>
   bar_mode Stopped (progressbar (handle_done
      (scoped_show (Inr 10) None (ScopedProgressService (Id ''panel'') True 0)))) = Stopped \<and>
   reveal_time None (progressbar (handle_done
      (scoped_show (Inr 10) None (ScopedProgressService (Id ''panel'') True 0)))) = None \<and>
   bar_mode Stopped (progressbar (handle_done ((handle_done
      (scoped_show (Inr 10) None (ScopedProgressService (Id ''panel'') True 0)))\<lparr>now := 7\<rparr>)))
     = Stopped \<and>
   reveal_time None (progressbar (handle_done ((handle_done
      (scoped_show (Inr 10) None (ScopedProgressService (Id ''panel'') True 0)))\<lparr>now := 7\<rparr>)))
     = None"
  using C8_done_twice [where w = "scoped_show (Inr 10) None
      (ScopedProgressService (Id ''panel'') True 0)" and t = 7 and m = Stopped and r = None]
  by (simp add: ScopedProgressService_def scoped_show_def handle_done_def bar_def Let_def)

text \<open>
  C6. When the \<open>stop\<close> callback registered for a promise \<open>p1\<close> runs while the state is a
  \<open>While\<close> for another promise \<open>p2\<close>, it changes nothing: the closure returns the
  world as it found it, and the microtask that runs it leaves the state and the
  widget as they were (it only fulfils the promise that \<open>then\<close> returned).
\<close>

theorem C6_stale_stop_is_noop:
  "progressState w = WhileProgressState p2 st d \<Longrightarrow> p1 \<noteq> p2 \<Longrightarrow>
   stop p1 w = w \<and>
   progressState (run_job (ScopedStop p1 d1, oc) w) = progressState w \<and>
   progressbar (run_job (ScopedStop p1 d1, oc) w) = progressbar w"
  by (simp add: stop_def)

theorem C6_stale_stop_witness:
  "progressState (run [Create, Create, ShowWhile 0 None, ShowWhile 1 None]
      (ScopedProgressService (Id ''panel'') True 0)) = WhileProgressState 3 0 0 \<and>
   (0::nat) \<noteq> 3 \<and>
   stop 0 (run [Create, Create, ShowWhile 0 None, ShowWhile 1 None]
      (ScopedProgressService (Id ''panel'') True 0)) =
     run [Create, Create, ShowWhile 0 None, ShowWhile 1 None]
      (ScopedProgressService (Id ''panel'') True 0) \<and>
   progressbar (run_job (ScopedStop 0 2, Fulfilled)
     (run [Create, Create, ShowWhile 0 None, ShowWhile 1 None]
      (ScopedProgressService (Id ''panel'') True 0))) =
     [(0, BarInfinite), (0, BarShow None), (0, BarInfinite), (0, BarShow None)]"
proof -
  let ?w = "run [Create, Create, ShowWhile 0 None, ShowWhile 1 None]
      (ScopedProgressService (Id ''panel'') True 0)"
  have s: "progressState ?w = WhileProgressState 3 0 0"
    by (simp add: reporter_defs runtime_defs)
  have b: "progressbar ?w = [(0, BarInfinite), (0, BarShow None), (0, BarInfinite), (0, BarShow None)]"
    by (simp add: reporter_defs runtime_defs)
  have n: "(0::nat) \<noteq> 3" by simp
  from C6_stale_stop_is_noop [OF s n, of 2 Fulfilled] s b n show ?thesis by simp
qed

text \<open>
  C5 (amended). What \<open>worked(n)\<close> does is decided by the reporter's activity and by the
  widget's answer to \<open>hasTotal()\<close>, not by the state. On an active reporter whose widget
  reports no total, the state becomes \<open>Infinite\<close> and the widget receives
  \<open>infinite().show()\<close>, whatever the state was. On an inactive reporter, or when the
  widget reports a total, the new state is \<open>Work\<close>: a state that is not \<open>Work\<close>
  becomes \<open>Work\<close> with no total and \<open>worked = n\<close>, and the widget receives
  \<open>worked(n)\<close> if the reporter is active.
\<close>

theorem C5_worked_fallback:
  "(isActive w \<and> \<not> hasTotal \<longrightarrow>
      progressState (handle_worked hasTotal n w) = InfiniteProgressState \<and>
      progressbar (handle_worked hasTotal n w) =
        progressbar w @ [(now w, BarInfinite), (now w, BarShow None)]) \<and>
   ((\<not> isActive w \<or> hasTotal) \<and> type_of (progressState w) \<noteq> WorkType \<longrightarrow>
      progressState (handle_worked hasTotal n w) = WorkProgressState None (Some n) \<and>
      progressbar (handle_worked hasTotal n w) =
        progressbar w @ (if isActive w then [(now w, BarWorked n)] else [])) \<and>
   (\<not> isActive w \<or> hasTotal \<longrightarrow>
      type_of (progressState (handle_worked hasTotal n w)) = WorkType)"
  by (cases "progressState w") (simp_all add: handle_worked_def Let_def)

theorem C5_worked_fallback_witness:
  "isActive (ScopedProgressService (Id ''panel'') True 0) \<and>
   progressState (handle_worked False 5 (ScopedProgressService (Id ''panel'') True 0))
     = InfiniteProgressState \<and>
   progressbar (handle_worked False 5 (ScopedProgressService (Id ''panel'') True 0))
     = [(0, BarInfinite), (0, BarShow None)] \<and>
   \<not> isActive (ScopedProgressService (Id ''panel'') False 0) \<and>
   type_of (progressState (ScopedProgressService (Id ''panel'') False 0)) \<noteq> WorkType \<and>
   progressState (handle_worked False 5 (ScopedProgressService (Id ''panel'') False 0))
     = WorkProgressState None (Some 5) \<and>
   progressbar (handle_worked False 5 (ScopedProgressService (Id ''panel'') False 0)) = []"
  using C5_worked_fallback [of "ScopedProgressService (Id ''panel'') True 0" False 5]
    C5_worked_fallback [of "ScopedProgressService (Id ''panel'') False 0" False 5]
  by (simp add: ScopedProgressService_def)

text \<open>
  C5 as stated fails on an inactive reporter: after \<open>show(true)\<close> the state is
  \<open>Infinite\<close>, not \<open>Work\<close>, and \<open>worked(5)\<close> makes it \<open>Work\<close> with \<open>worked = 5\<close>.
\<close>

theorem C5_inactive_worked_counterexample:
  "progressState (run [Show (Inl True) None]
      (ScopedProgressService (Id ''panel'') False 0)) = InfiniteProgressState \<and>
   progressState (run [Show (Inl True) None, HandleWorked False 5]
      (ScopedProgressService (Id ''panel'') False 0)) = WorkProgressState None (Some 5) \<and>
   progressState (run [Show (Inl True) None, HandleWorked False 5]
      (ScopedProgressService (Id ''panel'') False 0)) \<noteq> InfiniteProgressState"
  by (simp add: reporter_defs runtime_defs)

section \<open>Sequences of total and worked: the proofs\<close>

lemma add_deltas_Nil [simp]: "add_deltas k [] = k"
  by (simp add: add_deltas_def)

lemma add_deltas_Cons [simp]:
  "add_deltas k (n # ds) = add_deltas (Some ((case k of Some x \<Rightarrow> x | None \<Rightarrow> 0) + n)) ds"
  by (simp add: add_deltas_def)

lemma accumulating_step:
  assumes "progressState w = WorkProgressState t k" and "accumulating (isActive w) e"
    and "jobs w = []"
  shows "progressState (step e w) =
           WorkProgressState (last_total t [e]) (add_deltas k (worked_deltas [e])) \<and>
         isActive (step e w) = isActive w \<and> jobs (step e w) = []"
proof (cases e)
  case (HandleTotal n)
  with assms show ?thesis by (simp add: step_def handle_total_def Let_def)
next
  case (HandleWorked hasTotal n)
  with assms show ?thesis
    by (cases k) (auto simp add: step_def handle_worked_def Let_def)
qed (use assms in simp_all)

lemma last_total_Cons: "last_total t (e # es) = last_total (last_total t [e]) es"
  by (cases e) simp_all

lemma worked_deltas_Cons: "worked_deltas (e # es) = worked_deltas [e] @ worked_deltas es"
  by (cases e) simp_all

lemma add_deltas_append: "add_deltas k (xs @ ys) = add_deltas (add_deltas k xs) ys"
  by (induction xs arbitrary: k) simp_all

lemma accumulating_run:
  "progressState w = WorkProgressState t k \<Longrightarrow> list_all (accumulating (isActive w)) es \<Longrightarrow>
   jobs w = [] \<Longrightarrow>
   progressState (run es w) = WorkProgressState (last_total t es) (add_deltas k (worked_deltas es))"
proof (induction es arbitrary: w t k)
  case Nil
  then show ?case by simp
next
  case (Cons e es)
  from Cons.prems have e: "accumulating (isActive w) e" by simp
  note s = accumulating_step [OF Cons.prems(1) e Cons.prems(3)]
  from s Cons.prems(2) have "list_all (accumulating (isActive (step e w))) es" by simp
  with s have "progressState (run es (step e w)) =
      WorkProgressState (last_total (last_total t [e]) es)
        (add_deltas (add_deltas k (worked_deltas [e])) (worked_deltas es))"
    by (intro Cons.IH) simp_all
  then show ?case
    by (simp add: last_total_Cons [of t e es] worked_deltas_Cons [of e es] add_deltas_append)
qed

text \<open>
  C4 (amended). On a reporter whose state is \<open>Work\<close>, with no callback pending, after
  any sequence of \<open>total(n)\<close> and \<open>worked(n)\<close> in which every \<open>worked\<close> is called while
  the reporter is inactive or the widget reports a total, the state is \<open>Work\<close>, its total
  is the last one assigned, and its \<open>worked\<close> is the previous value (0 when absent) plus
  the sum of the deltas (it stays absent when there was none and no \<open>worked\<close> was called).
  \<open>total(n)\<close> keeps the previous \<open>worked\<close>, and on a state that is not \<open>Work\<close> it
  yields \<open>Work\<close> with total \<open>n\<close> and no \<open>worked\<close>.
\<close>

theorem C4_worked_accumulates:
  assumes "progressState w = WorkProgressState t k"
    and "list_all (accumulating (isActive w)) es" and "jobs w = []"
    and "type_of (progressState w') \<noteq> WorkType"
  shows "progressState (run es w) =
           WorkProgressState (last_total t es) (add_deltas k (worked_deltas es)) \<and>
         progressState (handle_total n w) = WorkProgressState (Some n) k \<and>
         progressState (handle_total n w') = WorkProgressState (Some n) None"
proof -
  from assms(4) have "progressState (handle_total n w') = WorkProgressState (Some n) None"
    by (cases "progressState w'") (simp_all add: handle_total_def Let_def)
  moreover from assms(1) have "progressState (handle_total n w) = WorkProgressState (Some n) k"
    by (simp add: handle_total_def Let_def)
  ultimately show ?thesis using accumulating_run [OF assms(1-3)] by simp
qed

theorem C4_worked_accumulates_witness:
  "progressState (scoped_show (Inr 10) None (ScopedProgressService (Id ''panel'') True 0))
     = WorkProgressState (Some 10) None \<and>
   list_all (accumulating True) [HandleWorked True 3, HandleTotal 20, HandleWorked True 4] \<and>
   type_of (progressState (ScopedProgressService (Id ''panel'') True 0)) \<noteq> WorkType \<and>
   progressState (run [HandleWorked True 3, HandleTotal 20, HandleWorked True 4]
      (scoped_show (Inr 10) None (ScopedProgressService (Id ''panel'') True 0)))
     = WorkProgressState (Some 20) (Some 7) \<and>
   progressState (handle_total 5 (ScopedProgressService (Id ''panel'') True 0))
     = WorkProgressState (Some 5) None"
  using C4_worked_accumulates [of "scoped_show (Inr 10) None (ScopedProgressService (Id ''panel'') True 0)"
    "Some 10" None "[HandleWorked True 3, HandleTotal 20, HandleWorked True 4]"
    "ScopedProgressService (Id ''panel'') True 0" 5]
  by (simp add: ScopedProgressService_def scoped_show_def Let_def)

text \<open>
  C4 as stated fails on an active reporter whose widget reports no total. An inactive
  reporter takes \<open>show(true)\<close> and \<open>worked(3)\<close>: the state is \<open>Work\<close> with
  \<open>worked = 3\<close>. Its scope opens; the replay sends \<open>worked(3).show()\<close> to the widget,
  which has never been given a total. Then \<open>worked(4)\<close> does not add up to 7: the state
  becomes \<open>Infinite\<close>.
\<close>

theorem C4_worked_dropped_counterexample:
  "progressState (run [Show (Inl True) None, HandleWorked False 3, ScopeOpened (Id ''panel'')]
      (ScopedProgressService (Id ''panel'') False 0)) = WorkProgressState None (Some 3) \<and>
   progressbar (run [Show (Inl True) None, HandleWorked False 3, ScopeOpened (Id ''panel'')]
      (ScopedProgressService (Id ''panel'') False 0)) = [(0, BarWorked 3), (0, BarShow None)] \<and>
   progressState (run [Show (Inl True) None, HandleWorked False 3, ScopeOpened (Id ''panel''),
      HandleWorked False 4] (ScopedProgressService (Id ''panel'') False 0))
     = InfiniteProgressState"
  by (simp add: reporter_defs runtime_defs)

section \<open>Promises returned by then: the proofs\<close>

lemma wf_cong: "heap w' = heap w \<Longrightarrow> jobs w' = jobs w \<Longrightarrow> wellformed X w' = wellformed X w"
  by (simp add: wellformed_def)

lemma wf_bar [simp]: "wellformed X (bar cs w) = wellformed X w"
  by (rule wf_cong) simp_all

lemma wf_stop [simp]: "wellformed X (stop p w) = wellformed X w"
  by (rule wf_cong) simp_all

text \<open>Settling a promise.\<close>

lemma settle_heap:
  "p < length (heap w) \<Longrightarrow> settled (heap w ! p) = None \<Longrightarrow>
   heap (settle p oc w) = (heap w)[p := (heap w ! p)\<lparr>settled := Some (oc, now w), reactions := []\<rparr>] \<and>
   jobs (settle p oc w) = jobs w @ map (\<lambda>r. (r, oc)) (reactions (heap w ! p))"
  by (simp add: settle_def)

lemma settle_noop:
  "\<not> (p < length (heap w) \<and> settled (heap w ! p) = None) \<Longrightarrow> settle p oc w = w"
  unfolding settle_def by (rule if_not_P)

lemma then_ok_settle:
  assumes t: "then_ok X h js" and r: "react_ok h"
    and x: "x < length h" and pend: "settled (h ! x) = None"
    and X: "X = None \<or> X = Some x"
    and ox: "\<And>p. origin (h ! x) = Then p \<Longrightarrow> oc = Fulfilled \<and> settled (h ! p) \<noteq> None"
  shows "then_ok None (h[x := (h ! x)\<lparr>settled := Some (oc, t), reactions := []\<rparr>])
           (js @ map (\<lambda>r. (r, oc)) (reactions (h ! x)))"
  unfolding then_ok_def
proof (intro allI impI)
  let ?h = "h[x := (h ! x)\<lparr>settled := Some (oc, t), reactions := []\<rparr>]"
  let ?js = "js @ map (\<lambda>r. (r, oc)) (reactions (h ! x))"
  fix d p
  assume d: "d < length ?h" and o: "origin (?h ! d) = Then p"
  from d have d': "d < length h" by simp
  from o d' x have o': "origin (h ! d) = Then p" by (cases "d = x") simp_all
  from t d' o' have p: "p < length h"
    and st: "\<And>oc t. settled (h ! d) = Some (oc, t) \<Longrightarrow> oc = Fulfilled \<and> settled (h ! p) \<noteq> None"
    and pn: "settled (h ! d) = None \<Longrightarrow> X \<noteq> Some d \<Longrightarrow>
        (settled (h ! p) = None \<longrightarrow> (\<exists>r \<in> set (reactions (h ! p)). target r = Some d)) \<and>
        (settled (h ! p) \<noteq> None \<longrightarrow> (\<exists>j \<in> set js. target (fst j) = Some d))"
    unfolding then_ok_def by blast+
  have mono: "settled (h ! p) \<noteq> None \<Longrightarrow> settled (?h ! p) \<noteq> None"
    using p x by (cases "p = x") simp_all
  have a: "p < length ?h" using p by simp
  have b: "\<forall>oc' t'. settled (?h ! d) = Some (oc', t') \<longrightarrow> oc' = Fulfilled \<and> settled (?h ! p) \<noteq> None"
  proof (cases "d = x")
    case True
    with o' ox have "oc = Fulfilled" and "settled (h ! p) \<noteq> None" by auto
    with True x mono show ?thesis by simp
  next
    case False
    with d' x st mono show ?thesis by simp
  qed
  have c: "settled (?h ! d) = None \<longrightarrow> None \<noteq> Some d \<longrightarrow>
        (settled (?h ! p) = None \<longrightarrow> (\<exists>r \<in> set (reactions (?h ! p)). target r = Some d)) \<and>
        (settled (?h ! p) \<noteq> None \<longrightarrow> (\<exists>j \<in> set ?js. target (fst j) = Some d))"
  proof (intro impI)
    assume sd: "settled (?h ! d) = None"
    with x d' have dx: "d \<noteq> x" by (cases "d = x") simp_all
    with sd x d' have sd': "settled (h ! d) = None" by simp
    from X dx have "X \<noteq> Some d" by auto
    note w = pn [OF sd' this]
    show "(settled (?h ! p) = None \<longrightarrow> (\<exists>r \<in> set (reactions (?h ! p)). target r = Some d)) \<and>
        (settled (?h ! p) \<noteq> None \<longrightarrow> (\<exists>j \<in> set ?js. target (fst j) = Some d))"
    proof (cases "p = x")
      case True
      with w pend obtain r where "r \<in> set (reactions (h ! x))" and "target r = Some d" by auto
      then have "(r, oc) \<in> set ?js" and "target (fst (r, oc)) = Some d" by auto
      then have "\<exists>j \<in> set ?js. target (fst j) = Some d" by blast
      with True x show ?thesis by simp
    next
      case False
      with w p x show ?thesis by auto
    qed
  qed
  from a b c
  show "p < length ?h \<and>
        (\<forall>oc' t'. settled (?h ! d) = Some (oc', t') \<longrightarrow> oc' = Fulfilled \<and> settled (?h ! p) \<noteq> None) \<and>
        (settled (?h ! d) = None \<longrightarrow> None \<noteq> Some d \<longrightarrow>
          (settled (?h ! p) = None \<longrightarrow> (\<exists>r \<in> set (reactions (?h ! p)). target r = Some d)) \<and>
          (settled (?h ! p) \<noteq> None \<longrightarrow> (\<exists>j \<in> set ?js. target (fst j) = Some d)))"
    by blast
qed

lemma react_ok_settle:
  assumes r: "react_ok h" and x: "x < length h"
  shows "react_ok (h[x := (h ! x)\<lparr>settled := Some (oc, t), reactions := []\<rparr>])"
  unfolding react_ok_def
proof (intro allI impI)
  let ?h = "h[x := (h ! x)\<lparr>settled := Some (oc, t), reactions := []\<rparr>]"
  fix q r'
  assume q: "q < length ?h" and m: "r' \<in> set (reactions (?h ! q))"
  from q have q': "q < length h" by simp
  from m q' x have qx: "q \<noteq> x" by (cases "q = x") simp_all
  with m q' have m': "r' \<in> set (reactions (h ! q))" by simp
  have org: "\<And>i. i < length h \<Longrightarrow> origin (?h ! i) = origin (h ! i)"
    using x by (simp add: nth_list_update)
  from r q' m' have old: "case r' of
           AllElement a \<Rightarrow> a < length h \<and> (\<forall>p. origin (h ! a) \<noteq> Then p)
         | _ \<Rightarrow> (\<forall>d. target r' = Some d \<longrightarrow> d < length h \<and> origin (h ! d) = Then q)"
    unfolding react_ok_def by blast
  then show "case r' of
           AllElement a \<Rightarrow> a < length ?h \<and> (\<forall>p. origin (?h ! a) \<noteq> Then p)
         | _ \<Rightarrow> (\<forall>d. target r' = Some d \<longrightarrow> d < length ?h \<and> origin (?h ! d) = Then q)"
    by (cases r') (simp_all add: org)
qed

lemma jobs_ok_settle:
  assumes j: "jobs_ok h js" and r: "react_ok h" and x: "x < length h"
  shows "jobs_ok (h[x := (h ! x)\<lparr>settled := Some (oc, t), reactions := []\<rparr>])
           (js @ map (\<lambda>r. (r, oc)) (reactions (h ! x)))"
  unfolding jobs_ok_def
proof (intro allI impI)
  let ?h = "h[x := (h ! x)\<lparr>settled := Some (oc, t), reactions := []\<rparr>]"
  let ?js = "js @ map (\<lambda>r. (r, oc)) (reactions (h ! x))"
  fix r' oc'
  assume m: "(r', oc') \<in> set ?js"
  have org: "\<And>i. i < length h \<Longrightarrow> origin (?h ! i) = origin (h ! i)"
    using x by (simp add: nth_list_update)
  have mono: "\<And>i. i < length h \<Longrightarrow> settled (h ! i) \<noteq> None \<Longrightarrow> settled (?h ! i) \<noteq> None"
    using x by (simp add: nth_list_update)
  have now_x: "settled (?h ! x) \<noteq> None" using x by simp
  from m consider (old) "(r', oc') \<in> set js" | (new) "r' \<in> set (reactions (h ! x))" by auto
  then show "case r' of
           AllElement a \<Rightarrow> a < length ?h \<and> (\<forall>p. origin (?h ! a) \<noteq> Then p)
         | _ \<Rightarrow> (\<forall>d. target r' = Some d \<longrightarrow>
                 d < length ?h \<and> (\<exists>q. origin (?h ! d) = Then q \<and> settled (?h ! q) \<noteq> None))"
  proof cases
    case old
    with j have o: "case r' of
           AllElement a \<Rightarrow> a < length h \<and> (\<forall>p. origin (h ! a) \<noteq> Then p)
         | _ \<Rightarrow> (\<forall>d. target r' = Some d \<longrightarrow>
                 d < length h \<and> (\<exists>q. origin (h ! d) = Then q \<and> settled (h ! q) \<noteq> None))"
      unfolding jobs_ok_def by blast
    show ?thesis
    proof (cases r')
      case (AllElement a)
      with o show ?thesis by (simp add: org)
    next
      case (ScopedStop p d)
      with o obtain q where "d < length h" "origin (h ! d) = Then q" "settled (h ! q) \<noteq> None"
        by auto
      moreover from this have "q < length h \<or> settled (?h ! q) \<noteq> None"
        using x by (cases "q < length h") simp_all
      ultimately show ?thesis using ScopedStop mono [of q] by (auto simp add: org)
    next
      case (UnscopedStop d)
      with o obtain q where "d < length h" "origin (h ! d) = Then q" "settled (h ! q) \<noteq> None"
        by auto
      moreover from this have "q < length h \<or> settled (?h ! q) \<noteq> None"
        using x by (cases "q < length h") simp_all
      ultimately show ?thesis using UnscopedStop mono [of q] by (auto simp add: org)
    qed
  next
    case new
    with r x have o: "case r' of
           AllElement a \<Rightarrow> a < length h \<and> (\<forall>p. origin (h ! a) \<noteq> Then p)
         | _ \<Rightarrow> (\<forall>d. target r' = Some d \<longrightarrow> d < length h \<and> origin (h ! d) = Then x)"
      unfolding react_ok_def by blast
    then show ?thesis using now_x by (cases r') (auto simp add: org)
  qed
qed

lemma then_ok_settled:
  assumes "then_ok X h js" and "\<And>d. X = Some d \<Longrightarrow> settled (h ! d) \<noteq> None"
  shows "then_ok None h js"
  unfolding then_ok_def
proof (intro allI impI)
  fix d p
  assume d: "d < length h" and o: "origin (h ! d) = Then p"
  have "settled (h ! d) = None \<Longrightarrow> X \<noteq> Some d" using assms(2) by blast
  with assms(1) d o
  show "p < length h \<and>
        (\<forall>oc t. settled (h ! d) = Some (oc, t) \<longrightarrow> oc = Fulfilled \<and> settled (h ! p) \<noteq> None) \<and>
        (settled (h ! d) = None \<longrightarrow> None \<noteq> Some d \<longrightarrow>
           (settled (h ! p) = None \<longrightarrow> (\<exists>r \<in> set (reactions (h ! p)). target r = Some d)) \<and>
           (settled (h ! p) \<noteq> None \<longrightarrow> (\<exists>j \<in> set js. target (fst j) = Some d)))"
    unfolding then_ok_def by blast
qed

lemma wf_settle:
  assumes i: "wellformed X w" and x: "x < length (heap w)"
    and X: "X = None \<or> X = Some x"
    and ox: "\<And>p. origin (heap w ! x) = Then p \<Longrightarrow>
               oc = Fulfilled \<and> settled (heap w ! p) \<noteq> None"
  shows "wellformed None (settle x oc w)"
proof (cases "settled (heap w ! x) = None")
  case True
  note h = settle_heap [OF x True, of oc]
  from i have "then_ok X (heap w) (jobs w)" "react_ok (heap w)" "jobs_ok (heap w) (jobs w)"
    by (simp_all add: wellformed_def)
  with x True X ox h show ?thesis
    by (simp add: wellformed_def then_ok_settle react_ok_settle jobs_ok_settle)
next
  case False
  then have same: "settle x oc w = w" by (simp add: settle_noop)
  from i have "then_ok X (heap w) (jobs w)" by (simp add: wellformed_def)
  moreover have "\<And>d. X = Some d \<Longrightarrow> settled (heap w ! d) \<noteq> None"
    using X False by auto
  ultimately have "then_ok None (heap w) (jobs w)"
    by (rule then_ok_settled)
  with i same show ?thesis by (simp add: wellformed_def)
qed

text \<open>The element counter of \<open>Promise.all\<close> plays no part.\<close>

lemma remaining_cells:
  assumes "r < length h"
  shows "origin (h[r := (h ! r)\<lparr>remaining := k\<rparr>] ! i) = origin (h ! i)"
    and "settled (h[r := (h ! r)\<lparr>remaining := k\<rparr>] ! i) = settled (h ! i)"
    and "reactions (h[r := (h ! r)\<lparr>remaining := k\<rparr>] ! i) = reactions (h ! i)"
  using assms by (cases "i = r"; simp)+

lemma wf_remaining:
  "r < length (heap w) \<Longrightarrow>
   wellformed X (w\<lparr>heap := (heap w)[r := (heap w ! r)\<lparr>remaining := k\<rparr>]\<rparr>) = wellformed X w"
  by (simp add: wellformed_def then_ok_def react_ok_def jobs_ok_def remaining_cells
        cong: reaction.case_cong)

text \<open>Taking the first job off the queue, and running it.\<close>

lemma wf_dequeue:
  assumes "wellformed None w" and "jobs w = j # js"
  shows "wellformed (target (fst j)) (w\<lparr>jobs := js\<rparr>)"
proof -
  from assms have t: "then_ok None (heap w) (j # js)" and r: "react_ok (heap w)"
    and jo: "jobs_ok (heap w) (j # js)"
    by (simp_all add: wellformed_def)
  have "then_ok (target (fst j)) (heap w) js"
    unfolding then_ok_def
  proof (intro allI impI conjI)
    fix d p
    assume d: "d < length (heap w)" and o: "origin (heap w ! d) = Then p"
    from t d o show "p < length (heap w)" unfolding then_ok_def by blast
    {
      fix oc t'
      assume "settled (heap w ! d) = Some (oc, t')"
      with t d o show "oc = Fulfilled" and "settled (heap w ! p) \<noteq> None"
        unfolding then_ok_def by blast+
    }
    {
      assume "settled (heap w ! d) = None" and "settled (heap w ! p) = None"
      with t d o show "\<exists>r \<in> set (reactions (heap w ! p)). target r = Some d"
        unfolding then_ok_def by blast
    }
    {
      assume "settled (heap w ! d) = None" and x: "target (fst j) \<noteq> Some d"
        and "settled (heap w ! p) \<noteq> None"
      with t d o have "\<exists>j' \<in> set (j # js). target (fst j') = Some d"
        unfolding then_ok_def by blast
      with x show "\<exists>j' \<in> set js. target (fst j') = Some d" by auto
    }
  qed
  moreover from jo have "jobs_ok (heap w) js" unfolding jobs_ok_def by auto
  ultimately show ?thesis using r by (simp add: wellformed_def)
qed

lemma job_target:
  assumes "wellformed None w" and "jobs w = (r, oc) # js" and "target r = Some d"
  shows "d < length (heap w) \<and>
         (\<forall>p. origin (heap w ! d) = Then p \<longrightarrow> settled (heap w ! p) \<noteq> None)"
proof -
  from assms have "jobs_ok (heap w) ((r, oc) # js)" by (simp add: wellformed_def)
  then have "case r of
           AllElement a \<Rightarrow> a < length (heap w) \<and> (\<forall>p. origin (heap w ! a) \<noteq> Then p)
         | _ \<Rightarrow> (\<forall>d. target r = Some d \<longrightarrow> d < length (heap w) \<and>
                 (\<exists>q. origin (heap w ! d) = Then q \<and> settled (heap w ! q) \<noteq> None))"
    unfolding jobs_ok_def by auto
  with assms(3) show ?thesis by (cases r) auto
qed

lemma job_element:
  assumes "wellformed None w" and "jobs w = (AllElement a, oc) # js"
  shows "a < length (heap w) \<and> (\<forall>p. origin (heap w ! a) \<noteq> Then p)"
proof -
  from assms have "jobs_ok (heap w) ((AllElement a, oc) # js)" by (simp add: wellformed_def)
  then show ?thesis unfolding jobs_ok_def by auto
qed

lemma wf_run_job:
  assumes i: "wellformed None w" and j: "jobs w = j # js"
  shows "wellformed None (run_job j (w\<lparr>jobs := js\<rparr>))"
proof -
  let ?w = "w\<lparr>jobs := js\<rparr>"
  note q = wf_dequeue [OF i j]
  obtain r oc where jr: "j = (r, oc)" by (cases j)
  show ?thesis
  proof (cases r)
    case (ScopedStop p d)
    with job_target [OF i j [unfolded jr], of d]
    have d: "d < length (heap w)"
      and s: "\<And>p. origin (heap w ! d) = Then p \<Longrightarrow> settled (heap w ! p) \<noteq> None" by auto
    from q jr ScopedStop have "wellformed (Some d) (stop p ?w)" by simp
    then have "wellformed None (settle d Fulfilled (stop p ?w))"
    proof (rule wf_settle)
      show "d < length (heap (stop p ?w))" using d by simp
      show "Some d = None \<or> Some d = Some d" by simp
      fix p'
      assume "origin (heap (stop p ?w) ! d) = Then p'"
      with s show "Fulfilled = Fulfilled \<and> settled (heap (stop p ?w) ! p') \<noteq> None" by simp
    qed
    with jr ScopedStop show ?thesis by simp
  next
    case (UnscopedStop d)
    with job_target [OF i j [unfolded jr], of d]
    have d: "d < length (heap w)"
      and s: "\<And>p. origin (heap w ! d) = Then p \<Longrightarrow> settled (heap w ! p) \<noteq> None" by auto
    from q jr UnscopedStop have "wellformed (Some d) (bar [BarStop, BarHide] ?w)" by simp
    then have "wellformed None (settle d Fulfilled (bar [BarStop, BarHide] ?w))"
    proof (rule wf_settle)
      show "d < length (heap (bar [BarStop, BarHide] ?w))" using d by simp
      show "Some d = None \<or> Some d = Some d" by simp
      fix p'
      assume "origin (heap (bar [BarStop, BarHide] ?w) ! d) = Then p'"
      with s show "Fulfilled = Fulfilled \<and> settled (heap (bar [BarStop, BarHide] ?w) ! p') \<noteq> None"
        by simp
    qed
    with jr UnscopedStop show ?thesis by simp
  next
    case (AllElement a)
    with j jr have "jobs w = (AllElement a, oc) # js" by simp
    from job_element [OF i this]
    have a: "a < length (heap w)" and o: "\<And>p. origin (heap w ! a) \<noteq> Then p" by auto
    from q jr AllElement have q': "wellformed None ?w" by simp
    show ?thesis
    proof (cases oc)
      case Rejected
      from q' have "wellformed None (settle a Rejected ?w)"
      proof (rule wf_settle)
        show "a < length (heap ?w)" using a by simp
        show "None = None \<or> None = Some a" by simp
        fix p'
        assume "origin (heap ?w ! a) = Then p'"
        with o show "Rejected = Fulfilled \<and> settled (heap ?w ! p') \<noteq> None" by simp
      qed
      with jr AllElement Rejected show ?thesis by simp
    next
      case Fulfilled
      have i1: "wellformed None (?w\<lparr>heap := (heap ?w)[a := (heap ?w ! a)\<lparr>remaining := k\<rparr>]\<rparr>)"
        for k
        using wf_remaining [of a ?w None k] q' a by simp
      have i2: "wellformed None
          (settle a Fulfilled (?w\<lparr>heap := (heap ?w)[a := (heap ?w ! a)\<lparr>remaining := k\<rparr>]\<rparr>))"
        for k
        using i1 [of k]
      proof (rule wf_settle)
        let ?w1 = "?w\<lparr>heap := (heap ?w)[a := (heap ?w ! a)\<lparr>remaining := k\<rparr>]\<rparr>"
        show "a < length (heap ?w1)" using a by simp
        show "None = None \<or> None = Some a" by simp
        fix p'
        assume "origin (heap ?w1 ! a) = Then p'"
        with a o show "Fulfilled = Fulfilled \<and> settled (heap ?w1 ! p') \<noteq> None"
          by (simp add: remaining_cells)
      qed
      from a jr AllElement Fulfilled show ?thesis
        using i1 [of "remaining (heap w ! a) - 1"] i2 [of 0] by (simp add: Let_def)
    qed
  qed
qed

lemma wf_drain: "wellformed None w \<Longrightarrow> wellformed None (drain w)"
proof (induction w rule: drain.induct)
  case (1 w)
  show ?case
  proof (cases "jobs w")
    case Nil
    with 1 show ?thesis by simp
  next
    case (Cons j js)
    with 1 wf_run_job [OF "1.prems" Cons] show ?thesis by simp
  qed
qed

text \<open>Creating a promise, and registering a callback.\<close>

lemma wf_newPromise:
  assumes i: "wellformed None w" and o: "\<And>p. org = Then p \<Longrightarrow> p < length (heap w)"
  shows "wellformed (Some (length (heap w))) (snd (newPromise org k w))"
proof -
  let ?c = "\<lparr>origin = org, settled = None, reactions = [], remaining = k\<rparr>"
  let ?h = "heap w @ [?c]"
  from i have t: "then_ok None (heap w) (jobs w)" and r: "react_ok (heap w)"
    and j: "jobs_ok (heap w) (jobs w)"
    by (simp_all add: wellformed_def)
  have old: "\<And>i. i < length (heap w) \<Longrightarrow> ?h ! i = heap w ! i" by (simp add: nth_append)
  have new: "?h ! length (heap w) = ?c" by simp
  have bound: "\<And>d p. d < length (heap w) \<Longrightarrow> origin (heap w ! d) = Then p \<Longrightarrow> p < length (heap w)"
    using t unfolding then_ok_def by blast
  have "then_ok (Some (length (heap w))) ?h (jobs w)"
    unfolding then_ok_def
  proof (intro allI impI)
    fix d p
    assume d: "d < length ?h" and od: "origin (?h ! d) = Then p"
    show "p < length ?h \<and>
        (\<forall>oc t. settled (?h ! d) = Some (oc, t) \<longrightarrow> oc = Fulfilled \<and> settled (?h ! p) \<noteq> None) \<and>
        (settled (?h ! d) = None \<longrightarrow> Some (length (heap w)) \<noteq> Some d \<longrightarrow>
           (settled (?h ! p) = None \<longrightarrow> (\<exists>r \<in> set (reactions (?h ! p)). target r = Some d)) \<and>
           (settled (?h ! p) \<noteq> None \<longrightarrow> (\<exists>j \<in> set (jobs w). target (fst j) = Some d)))"
    proof (cases "d = length (heap w)")
      case True
      with od o have "p < length (heap w)" by simp
      with True show ?thesis by simp
    next
      case False
      with d have d': "d < length (heap w)" by simp
      with od have od': "origin (heap w ! d) = Then p" by (simp add: old)
      from bound [OF d' od'] have p: "p < length (heap w)" .
      from t d' od' have
        "(\<forall>oc t. settled (heap w ! d) = Some (oc, t) \<longrightarrow>
            oc = Fulfilled \<and> settled (heap w ! p) \<noteq> None) \<and>
         (settled (heap w ! d) = None \<longrightarrow>
           (settled (heap w ! p) = None \<longrightarrow>
              (\<exists>r \<in> set (reactions (heap w ! p)). target r = Some d)) \<and>
           (settled (heap w ! p) \<noteq> None \<longrightarrow> (\<exists>j \<in> set (jobs w). target (fst j) = Some d)))"
        unfolding then_ok_def by blast
      with p d' show ?thesis by (simp add: old)
    qed
  qed
  moreover have "react_ok ?h"
    unfolding react_ok_def
  proof (intro allI impI)
    fix q r'
    assume q: "q < length ?h" and m: "r' \<in> set (reactions (?h ! q))"
    from q m have q': "q < length (heap w)" by (cases "q = length (heap w)") simp_all
    with m have m': "r' \<in> set (reactions (heap w ! q))" by (simp add: old)
    with r q' have "case r' of
           AllElement a \<Rightarrow> a < length (heap w) \<and> (\<forall>p. origin (heap w ! a) \<noteq> Then p)
         | _ \<Rightarrow> (\<forall>d. target r' = Some d \<longrightarrow>
                 d < length (heap w) \<and> origin (heap w ! d) = Then q)"
      unfolding react_ok_def by blast
    then show "case r' of
           AllElement a \<Rightarrow> a < length ?h \<and> (\<forall>p. origin (?h ! a) \<noteq> Then p)
         | _ \<Rightarrow> (\<forall>d. target r' = Some d \<longrightarrow> d < length ?h \<and> origin (?h ! d) = Then q)"
      by (cases r') (auto simp add: old)
  qed
  moreover have "jobs_ok ?h (jobs w)"
    unfolding jobs_ok_def
  proof (intro allI impI)
    fix r' oc
    assume "(r', oc) \<in> set (jobs w)"
    with j have "case r' of
           AllElement a \<Rightarrow> a < length (heap w) \<and> (\<forall>p. origin (heap w ! a) \<noteq> Then p)
         | _ \<Rightarrow> (\<forall>d. target r' = Some d \<longrightarrow> d < length (heap w) \<and>
                 (\<exists>q. origin (heap w ! d) = Then q \<and> settled (heap w ! q) \<noteq> None))"
      unfolding jobs_ok_def by blast
    then show "case r' of
           AllElement a \<Rightarrow> a < length ?h \<and> (\<forall>p. origin (?h ! a) \<noteq> Then p)
         | _ \<Rightarrow> (\<forall>d. target r' = Some d \<longrightarrow> d < length ?h \<and>
                 (\<exists>q. origin (?h ! d) = Then q \<and> settled (?h ! q) \<noteq> None))"
    proof (cases r')
      case (AllElement a)
      assume "case r' of
           AllElement a \<Rightarrow> a < length (heap w) \<and> (\<forall>p. origin (heap w ! a) \<noteq> Then p)
         | _ \<Rightarrow> (\<forall>d. target r' = Some d \<longrightarrow> d < length (heap w) \<and>
                 (\<exists>q. origin (heap w ! d) = Then q \<and> settled (heap w ! q) \<noteq> None))"
      with AllElement show ?thesis by (auto simp add: old)
    next
      case (ScopedStop p d)
      assume "case r' of
           AllElement a \<Rightarrow> a < length (heap w) \<and> (\<forall>p. origin (heap w ! a) \<noteq> Then p)
         | _ \<Rightarrow> (\<forall>d. target r' = Some d \<longrightarrow> d < length (heap w) \<and>
                 (\<exists>q. origin (heap w ! d) = Then q \<and> settled (heap w ! q) \<noteq> None))"
      with ScopedStop obtain q where d: "d < length (heap w)"
        and oq: "origin (heap w ! d) = Then q" and sq: "settled (heap w ! q) \<noteq> None" by auto
      from bound [OF d oq] have "q < length (heap w)" .
      with d oq sq ScopedStop show ?thesis by (auto simp add: old)
    next
      case (UnscopedStop d)
      assume "case r' of
           AllElement a \<Rightarrow> a < length (heap w) \<and> (\<forall>p. origin (heap w ! a) \<noteq> Then p)
         | _ \<Rightarrow> (\<forall>d. target r' = Some d \<longrightarrow> d < length (heap w) \<and>
                 (\<exists>q. origin (heap w ! d) = Then q \<and> settled (heap w ! q) \<noteq> None))"
      with UnscopedStop obtain q where d: "d < length (heap w)"
        and oq: "origin (heap w ! d) = Then q" and sq: "settled (heap w ! q) \<noteq> None" by auto
      from bound [OF d oq] have "q < length (heap w)" .
      with d oq sq UnscopedStop show ?thesis by (auto simp add: old)
    qed
  qed
  ultimately show ?thesis by (simp add: wellformed_def)
qed

lemma wf_newPromise_other:
  assumes i: "wellformed None w" and o: "\<And>p. org \<noteq> Then p"
  shows "wellformed None (snd (newPromise org k w))"
proof -
  have "wellformed (Some (length (heap w))) (snd (newPromise org k w))"
  proof (rule wf_newPromise [OF i])
    fix p
    assume "org = Then p"
    with o show "p < length (heap w)" by blast
  qed
  then have "then_ok (Some (length (heap w))) (heap (snd (newPromise org k w))) (jobs w)"
    and r: "react_ok (heap (snd (newPromise org k w)))"
    and j: "jobs_ok (heap (snd (newPromise org k w))) (jobs w)"
    by (simp_all add: wellformed_def)
  then have "then_ok None (heap (snd (newPromise org k w))) (jobs w)"
    unfolding then_ok_def using o by (auto simp add: nth_append)
  with r j show ?thesis by (simp add: wellformed_def)
qed

lemma appended_cells:
  assumes "q < length h"
  shows "origin (h[q := (h ! q)\<lparr>reactions := reactions (h ! q) @ [r]\<rparr>] ! i) = origin (h ! i)"
    and "settled (h[q := (h ! q)\<lparr>reactions := reactions (h ! q) @ [r]\<rparr>] ! i) = settled (h ! i)"
    and "set (reactions (h[q := (h ! q)\<lparr>reactions := reactions (h ! q) @ [r]\<rparr>] ! i)) =
           (if i = q then insert r (set (reactions (h ! q))) else set (reactions (h ! i)))"
  using assms by (cases "i = q"; simp)+

lemma then_reaction_cases:
  "\<not> p < length (heap w) \<Longrightarrow> then_reaction p r w = w"
  "p < length (heap w) \<Longrightarrow> settled (heap w ! p) = None \<Longrightarrow>
     then_reaction p r w =
       w\<lparr>heap := (heap w)[p := (heap w ! p)\<lparr>reactions := reactions (heap w ! p) @ [r]\<rparr>]\<rparr>"
  "p < length (heap w) \<Longrightarrow> settled (heap w ! p) = Some (oc, t) \<Longrightarrow>
     then_reaction p r w = w\<lparr>jobs := jobs w @ [(r, oc)]\<rparr>"
  by (simp_all add: then_reaction_def)

lemma wf_then_reaction:
  assumes i: "wellformed X w"
    and ok: "case r of
               AllElement a \<Rightarrow> a < length (heap w) \<and> (\<forall>p'. origin (heap w ! a) \<noteq> Then p')
             | _ \<Rightarrow> (\<forall>d. target r = Some d \<longrightarrow>
                     p < length (heap w) \<and> d < length (heap w) \<and> origin (heap w ! d) = Then p)"
    and X: "X = None \<or> X = target r"
  shows "wellformed None (then_reaction p r w)"
proof -
  let ?h = "heap w" and ?js = "jobs w"
  from i have t: "then_ok X ?h ?js" and ro: "react_ok ?h" and jo: "jobs_ok ?h ?js"
    by (simp_all add: wellformed_def)
  have tgt: "\<And>d. target r = Some d \<Longrightarrow>
      p < length ?h \<and> d < length ?h \<and> origin (?h ! d) = Then p"
    using ok by (cases r) simp_all
  have exempt: "\<And>d. X = Some d \<Longrightarrow> target r = Some d" using X by auto
  note D = t [unfolded then_ok_def, rule_format]
  consider (invalid) "\<not> p < length ?h"
    | (pending) "p < length ?h" "settled (?h ! p) = None"
    | (settled) oc t' where "p < length ?h" "settled (?h ! p) = Some (oc, t')"
    by (cases "settled (?h ! p)") auto
  then show ?thesis
  proof cases
    case invalid
    then have same: "then_reaction p r w = w" by (rule then_reaction_cases)
    from invalid tgt have "target r = None" by (cases "target r") auto
    with X i same show ?thesis by auto
  next
    case pending
    let ?h' = "?h[p := (?h ! p)\<lparr>reactions := reactions (?h ! p) @ [r]\<rparr>]"
    note c = appended_cells [OF pending(1), of r]
    have "then_ok None ?h' ?js"
      unfolding then_ok_def
    proof (intro allI impI)
      fix d p'
      assume d: "d < length ?h'" and od: "origin (?h' ! d) = Then p'"
      then have d': "d < length ?h" and od': "origin (?h ! d) = Then p'" by (simp_all add: c)
      note E = D [OF d' od']
      have "settled (?h ! d) = None \<Longrightarrow> settled (?h ! p') = None \<Longrightarrow>
            \<exists>r' \<in> set (reactions (?h' ! p')). target r' = Some d"
      proof (cases "X = Some d")
        case True
        with exempt have tr: "target r = Some d" by simp
        with tgt od' have "p' = p" by auto
        with tr show ?thesis by (auto simp add: c)
      next
        case False
        assume "settled (?h ! d) = None" and "settled (?h ! p') = None"
        with E False obtain r' where "r' \<in> set (reactions (?h ! p'))" "target r' = Some d"
          by blast
        then show ?thesis by (auto simp add: c)
      qed
      moreover have "settled (?h ! d) = None \<Longrightarrow> settled (?h ! p') \<noteq> None \<Longrightarrow>
            \<exists>j \<in> set ?js. target (fst j) = Some d"
      proof (cases "X = Some d")
        case True
        with exempt have "target r = Some d" by simp
        with tgt od' have "p' = p" by auto
        moreover assume "settled (?h ! p') \<noteq> None"
        ultimately show ?thesis using pending by simp
      next
        case False
        assume "settled (?h ! d) = None" and "settled (?h ! p') \<noteq> None"
        with E False show ?thesis by blast
      qed
      ultimately show "p' < length ?h' \<and>
        (\<forall>oc t. settled (?h' ! d) = Some (oc, t) \<longrightarrow> oc = Fulfilled \<and> settled (?h' ! p') \<noteq> None) \<and>
        (settled (?h' ! d) = None \<longrightarrow> None \<noteq> Some d \<longrightarrow>
           (settled (?h' ! p') = None \<longrightarrow> (\<exists>r \<in> set (reactions (?h' ! p')). target r = Some d)) \<and>
           (settled (?h' ! p') \<noteq> None \<longrightarrow> (\<exists>j \<in> set ?js. target (fst j) = Some d)))"
        using E by (simp add: c(1,2))
    qed
    moreover have "react_ok ?h'"
      unfolding react_ok_def
    proof (intro allI impI)
      fix q r'
      assume q: "q < length ?h'" and m: "r' \<in> set (reactions (?h' ! q))"
      then have q': "q < length ?h" by simp
      from m consider (old) "r' \<in> set (reactions (?h ! q))" | (new) "q = p" "r' = r"
        by (cases "q = p") (auto simp add: c)
      then have "case r' of
           AllElement a \<Rightarrow> a < length ?h \<and> (\<forall>p. origin (?h ! a) \<noteq> Then p)
         | _ \<Rightarrow> (\<forall>d. target r' = Some d \<longrightarrow> d < length ?h \<and> origin (?h ! d) = Then q)"
      proof cases
        case old
        with ro q' show ?thesis unfolding react_ok_def by blast
      next
        case new
        with ok show ?thesis by (cases r) simp_all
      qed
      then show "case r' of
           AllElement a \<Rightarrow> a < length ?h' \<and> (\<forall>p. origin (?h' ! a) \<noteq> Then p)
         | _ \<Rightarrow> (\<forall>d. target r' = Some d \<longrightarrow> d < length ?h' \<and> origin (?h' ! d) = Then q)"
        by (simp add: c cong: reaction.case_cong)
    qed
    moreover from jo have "jobs_ok ?h' ?js"
      by (simp add: jobs_ok_def c cong: reaction.case_cong)
    ultimately show ?thesis using pending by (simp add: then_reaction_cases wellformed_def)
  next
    case settled
    let ?js' = "?js @ [(r, oc)]"
    have "then_ok None ?h ?js'"
      unfolding then_ok_def
    proof (intro allI impI)
      fix d p'
      assume d: "d < length ?h" and od: "origin (?h ! d) = Then p'"
      note E = D [OF d od]
      have "settled (?h ! d) = None \<Longrightarrow> settled (?h ! p') = None \<Longrightarrow>
            \<exists>r' \<in> set (reactions (?h ! p')). target r' = Some d"
      proof (cases "X = Some d")
        case True
        with exempt have "target r = Some d" by simp
        with tgt od have "p' = p" by auto
        moreover assume "settled (?h ! p') = None"
        ultimately show ?thesis using settled by simp
      next
        case False
        assume "settled (?h ! d) = None" and "settled (?h ! p') = None"
        with E False show ?thesis by blast
      qed
      moreover have "settled (?h ! d) = None \<Longrightarrow> settled (?h ! p') \<noteq> None \<Longrightarrow>
            \<exists>j \<in> set ?js'. target (fst j) = Some d"
      proof (cases "X = Some d")
        case True
        with exempt have "target r = Some d" by simp
        then show ?thesis by auto
      next
        case False
        assume "settled (?h ! d) = None" and "settled (?h ! p') \<noteq> None"
        with E False have "\<exists>j \<in> set ?js. target (fst j) = Some d" by blast
        then show ?thesis by auto
      qed
      ultimately show "p' < length ?h \<and>
        (\<forall>oc t. settled (?h ! d) = Some (oc, t) \<longrightarrow> oc = Fulfilled \<and> settled (?h ! p') \<noteq> None) \<and>
        (settled (?h ! d) = None \<longrightarrow> None \<noteq> Some d \<longrightarrow>
           (settled (?h ! p') = None \<longrightarrow> (\<exists>r \<in> set (reactions (?h ! p')). target r = Some d)) \<and>
           (settled (?h ! p') \<noteq> None \<longrightarrow> (\<exists>j \<in> set ?js'. target (fst j) = Some d)))"
        using E by blast
    qed
    moreover have "jobs_ok ?h ?js'"
      unfolding jobs_ok_def
    proof (intro allI impI)
      fix r' oc'
      assume "(r', oc') \<in> set ?js'"
      then consider (old) "(r', oc') \<in> set ?js" | (new) "r' = r" by auto
      then show "case r' of
           AllElement a \<Rightarrow> a < length ?h \<and> (\<forall>p. origin (?h ! a) \<noteq> Then p)
         | _ \<Rightarrow> (\<forall>d. target r' = Some d \<longrightarrow> d < length ?h \<and>
                 (\<exists>q. origin (?h ! d) = Then q \<and> settled (?h ! q) \<noteq> None))"
      proof cases
        case old
        with jo show ?thesis unfolding jobs_ok_def by blast
      next
        case new
        with ok settled show ?thesis by (cases r) auto
      qed
    qed
    ultimately show ?thesis using settled ro by (simp add: then_reaction_cases wellformed_def)
  qed
qed

lemma wf_then_stop:
  assumes i: "wellformed None w" and p: "p < length (heap w)"
    and r: "target r = Some (length (heap w))"
  shows "wellformed None (then_reaction p r (snd (newPromise (Then p) k w)))"
proof (rule wf_then_reaction)
  let ?w = "snd (newPromise (Then p) k w)"
  from p show "wellformed (Some (length (heap w))) ?w"
    by (intro wf_newPromise [OF i]) simp
  from r show "Some (length (heap w)) = None \<or> Some (length (heap w)) = target r" by simp
  from r p show "case r of
      AllElement a \<Rightarrow> a < length (heap ?w) \<and> (\<forall>p'. origin (heap ?w ! a) \<noteq> Then p')
    | _ \<Rightarrow> (\<forall>d. target r = Some d \<longrightarrow>
            p < length (heap ?w) \<and> d < length (heap ?w) \<and> origin (heap ?w ! d) = Then p)"
    by (cases r) simp_all
qed

lemma wf_Promise_all:
  assumes "wellformed None w"
  shows "wellformed None (snd (Promise_all p q w))"
proof -
  let ?w1 = "snd (newPromise (All p q) 2 w)"
  let ?r = "AllElement (length (heap w))"
  have 1: "wellformed None ?w1" using assms by (rule wf_newPromise_other) simp
  have 2: "wellformed None (then_reaction p ?r ?w1)"
    using 1 by (rule wf_then_reaction) simp_all
  have o: "origin (heap (then_reaction p ?r ?w1) ! length (heap w)) = All p q"
    by (simp add: then_reaction_def nth_append nth_list_update split: option.splits)
  have "wellformed None (then_reaction q ?r (then_reaction p ?r ?w1))"
    using 2 by (rule wf_then_reaction) (simp_all add: o)
  then show ?thesis by (simp add: Promise_all_def split_beta)
qed

lemma doShowWhile_fields [simp]:
  "heap (doShowWhile delay w) = heap w" "jobs (doShowWhile delay w) = jobs w"
  "now (doShowWhile delay w) = now w" "scopeId (doShowWhile delay w) = scopeId w"
  "isActive (doShowWhile delay w) = isActive w"
  "progressState (doShowWhile delay w) = progressState w"
  by (simp_all add: doShowWhile_def)

lemma wf_scoped_showWhile:
  assumes i: "wellformed None w" and p: "p < length (heap w)"
  shows "wellformed None (snd (scoped_showWhile p delay w))"
proof -
  have step: "wellformed None
      (then_reaction x (ScopedStop x (length (heap w1)))
        (snd (newPromise (Then x) 0 (doShowWhile delay (w1\<lparr>progressState := s\<rparr>)))))"
    if "wellformed None w1" and "x < length (heap w1)" for w1 x s
  proof (rule wf_then_stop)
    from that(1) show "wellformed None (doShowWhile delay (w1\<lparr>progressState := s\<rparr>))"
      by (simp add: wellformed_def)
    from that(2) show "x < length (heap (doShowWhile delay (w1\<lparr>progressState := s\<rparr>)))" by simp
    show "target (ScopedStop x (length (heap w1))) =
      Some (length (heap (doShowWhile delay (w1\<lparr>progressState := s\<rparr>))))" by simp
  qed
  show ?thesis
  proof (cases "progressState w")
    case (WhileProgressState q st d)
    have "wellformed None (snd (Promise_all p q w))" using i by (rule wf_Promise_all)
    from step [OF this, of "length (heap w)"] WhileProgressState show ?thesis
      by (simp add: scoped_showWhile_def split_beta Let_def)
  qed (use step [OF i p] in \<open>simp_all add: scoped_showWhile_def split_beta Let_def\<close>)
qed

lemma wf_unscoped_showWhile:
  assumes i: "wellformed None w" and p: "p < length (heap w)"
  shows "wellformed None (snd (unscoped_showWhile p delay w))"
proof -
  have "wellformed None
      (then_reaction p (UnscopedStop (length (heap w)))
        (snd (newPromise (Then p) 0 (bar [BarInfinite, BarShow delay] w))))"
  proof (rule wf_then_stop)
    from i show "wellformed None (bar [BarInfinite, BarShow delay] w)" by simp
    from p show "p < length (heap (bar [BarInfinite, BarShow delay] w))" by simp
    show "target (UnscopedStop (length (heap w))) =
      Some (length (heap (bar [BarInfinite, BarShow delay] w)))" by simp
  qed
  then show ?thesis by (simp add: unscoped_showWhile_def split_beta Let_def)
qed

text \<open>The synchronous calls that involve no promise leave the heap and the queue alone.\<close>

lemma reporter_heap [simp]:
  "heap (onScopeOpened sid w) = heap w" "jobs (onScopeOpened sid w) = jobs w"
  "heap (onScopeClosed sid w) = heap w" "jobs (onScopeClosed sid w) = jobs w"
  "heap (scoped_show x delay w) = heap w" "jobs (scoped_show x delay w) = jobs w"
  "heap (handle_total n w) = heap w" "jobs (handle_total n w) = jobs w"
  "heap (handle_worked hasTotal n w) = heap w" "jobs (handle_worked hasTotal n w) = jobs w"
  "heap (handle_done w) = heap w" "jobs (handle_done w) = jobs w"
  "heap (unscoped_show x delay w) = heap w" "jobs (unscoped_show x delay w) = jobs w"
  "heap (unscoped_total n w) = heap w" "jobs (unscoped_total n w) = jobs w"
  "heap (unscoped_worked hasTotal n w) = heap w" "jobs (unscoped_worked hasTotal n w) = jobs w"
  "heap (unscoped_done w) = heap w" "jobs (unscoped_done w) = jobs w"
  by (simp_all add: onScopeOpened_def onScopeClosed_def onScopeActivated_def
      onScopeDeactivated_def scoped_show_def handle_total_def handle_worked_def handle_done_def
      unscoped_show_def unscoped_total_def unscoped_worked_def unscoped_done_def Let_def
      split: ProgressState.splits sum.splits option.splits)

lemma wf_call: "wellformed None w \<Longrightarrow> wellformed None (call e w)"
proof (cases e)
  case Create
  assume "wellformed None w"
  then have "wellformed None (snd (newPromise Caller 0 w))" by (rule wf_newPromise_other) simp
  with Create show ?thesis by simp
next
  case (Settle p oc)
  assume i: "wellformed None w"
  show ?thesis
  proof (cases "p < length (heap w) \<and> origin (heap w ! p) = Caller")
    case True
    from i have "wellformed None (settle p oc w)"
    proof (rule wf_settle)
      from True show "p < length (heap w)" by simp
      show "None = None \<or> None = Some p" by simp
      fix p'
      assume "origin (heap w ! p) = Then p'"
      with True show "oc = Fulfilled \<and> settled (heap w ! p') \<noteq> None" by simp
    qed
    with True Settle show ?thesis by simp
  next
    case False
    with i Settle show ?thesis by auto
  qed
next
  case (ShowWhile p delay)
  assume "wellformed None w"
  with ShowWhile show ?thesis by (simp add: wf_scoped_showWhile)
next
  case (UShowWhile p delay)
  assume "wellformed None w"
  with UShowWhile show ?thesis by (simp add: wf_unscoped_showWhile)
qed (simp_all add: wellformed_def)

lemma wf_step: "wellformed None w \<Longrightarrow> wellformed None (step e w)"
  by (simp add: step_def wf_call wf_drain)

lemma wf_run: "wellformed None w \<Longrightarrow> wellformed None (run es w)"
  by (induction es arbitrary: w) (simp_all add: wf_step)

lemma wf_ScopedProgressService: "wellformed None (ScopedProgressService sid active t)"
  by (simp add: wellformed_def then_ok_def react_ok_def jobs_ok_def ScopedProgressService_def)

lemma jobs_run:
  "jobs w = [] \<Longrightarrow> jobs (run es w) = []"
  by (induction es arbitrary: w) (simp_all add: step_def)

text \<open>
  In every world that a run of events reaches from a new reporter, a promise that
  \<open>p.then(stop, stop)\<close> returned is pending exactly as long as \<open>p\<close> is, and is never
  rejected.
\<close>

lemma then_promise_quiescent:
  assumes i: "wellformed None w" and q: "jobs w = []"
    and d: "d < length (heap w)" and o: "origin (heap w ! d) = Then p"
  shows "p < length (heap w) \<and>
         (settled (heap w ! d) = None \<longleftrightarrow> settled (heap w ! p) = None) \<and>
         (\<forall>t. settled (heap w ! d) \<noteq> Some (Rejected, t))"
proof -
  from i have "then_ok None (heap w) []" using q by (simp add: wellformed_def)
  note E = this [unfolded then_ok_def, rule_format, OF d o]
  from E have 1: "p < length (heap w)" by blast
  from E have 2: "\<And>oc t. settled (heap w ! d) = Some (oc, t) \<Longrightarrow>
      oc = Fulfilled \<and> settled (heap w ! p) \<noteq> None" by blast
  have 3: "settled (heap w ! p) = None" if a: "settled (heap w ! d) = None"
  proof (rule ccontr)
    assume "settled (heap w ! p) \<noteq> None"
    with a E have "\<exists>j \<in> set ([] :: (reaction \<times> outcome) list). target (fst j) = Some d"
      by blast
    then show False by simp
  qed
  from 2 have 4: "settled (heap w ! p) = None \<Longrightarrow> settled (heap w ! d) = None"
    by (cases "settled (heap w ! d)") auto
  from 2 have 5: "\<forall>t. settled (heap w ! d) \<noteq> Some (Rejected, t)" by auto
  from 1 3 4 5 show ?thesis by blast
qed

lemma origin_then_reaction [simp]:
  "origin (heap (then_reaction p r w) ! i) = origin (heap w ! i)"
  by (cases "i = p") (simp_all add: then_reaction_def split: option.splits)

lemma origin_settle [simp]: "origin (heap (settle p oc w) ! i) = origin (heap w ! i)"
  by (cases "i = p") (simp_all add: settle_def)

lemma scoped_showWhile_returns:
  "origin (heap (snd (scoped_showWhile q delay w)) ! fst (scoped_showWhile q delay w)) =
     Then (whilePromise (progressState (snd (scoped_showWhile q delay w))))"
  by (cases "progressState w") (simp_all add: scoped_showWhile_def split_beta Let_def nth_append)

lemma unscoped_showWhile_returns:
  "origin (heap (snd (unscoped_showWhile q delay w)) ! fst (unscoped_showWhile q delay w)) = Then q"
  by (simp add: unscoped_showWhile_def split_beta Let_def)

text \<open>
  C7. The promise returned by \<open>showWhile\<close>, of either reporter, is the result of
  \<open>promise.then(stop, stop)\<close> for the tracked promise (the argument, or for the scoped
  reporter the \<open>whilePromise\<close> of the new state, which is the join when there is one).
  In every world \<open>w\<close> reached from a new reporter by any events, whatever the outcomes
  of the callers' promises, every such promise \<open>d\<close> of a tracked promise \<open>p\<close> is never
  rejected, and it is settled (fulfilled) exactly when \<open>p\<close> is settled: once \<open>p\<close> has
  settled and the microtasks have run, \<open>d\<close> is fulfilled.
\<close>

theorem C7_showWhile_never_rejects:
  assumes "w = run es (ScopedProgressService sid active t0)"
  shows "origin (heap (snd (scoped_showWhile q delay w)) ! fst (scoped_showWhile q delay w)) =
           Then (whilePromise (progressState (snd (scoped_showWhile q delay w)))) \<and>
         origin (heap (snd (unscoped_showWhile q delay w)) ! fst (unscoped_showWhile q delay w)) =
           Then q \<and>
         (\<forall>d p. d < length (heap w) \<longrightarrow> origin (heap w ! d) = Then p \<longrightarrow>
            p < length (heap w) \<and>
            (\<forall>t. settled (heap w ! d) \<noteq> Some (Rejected, t)) \<and>
            (settled (heap w ! d) = None \<longleftrightarrow> settled (heap w ! p) = None))"
proof -
  have i: "wellformed None w" unfolding assms by (rule wf_run) (rule wf_ScopedProgressService)
  have j: "jobs w = []" unfolding assms by (rule jobs_run) (simp add: ScopedProgressService_def)
  from then_promise_quiescent [OF i j] show ?thesis
    by (simp add: scoped_showWhile_returns unscoped_showWhile_returns)
qed

theorem C7_rejected_operation_witness:
  "settled (heap (run [Create, ShowWhile 0 None, Create, UShowWhile 2 None, Tick 5,
      Settle 0 Rejected, Settle 2 Rejected] (ScopedProgressService (Id ''panel'') True 0)) ! 0)
     = Some (Rejected, 5) \<and>
   origin (heap (run [Create, ShowWhile 0 None, Create, UShowWhile 2 None, Tick 5,
      Settle 0 Rejected, Settle 2 Rejected] (ScopedProgressService (Id ''panel'') True 0)) ! 1)
     = Then 0 \<and>
   settled (heap (run [Create, ShowWhile 0 None, Create, UShowWhile 2 None, Tick 5,
      Settle 0 Rejected, Settle 2 Rejected] (ScopedProgressService (Id ''panel'') True 0)) ! 1)
     = Some (Fulfilled, 5) \<and>
   origin (heap (run [Create, ShowWhile 0 None, Create, UShowWhile 2 None, Tick 5,
      Settle 0 Rejected, Settle 2 Rejected] (ScopedProgressService (Id ''panel'') True 0)) ! 3)
     = Then 2 \<and>
   settled (heap (run [Create, ShowWhile 0 None, Create, UShowWhile 2 None, Tick 5,
      Settle 0 Rejected, Settle 2 Rejected] (ScopedProgressService (Id ''panel'') True 0)) ! 3)
     = Some (Fulfilled, 5)"
  using C7_showWhile_never_rejects [where es = "[Create, ShowWhile 0 None, Create,
      UShowWhile 2 None, Tick 5, Settle 0 Rejected, Settle 2 Rejected]" and sid = "Id ''panel''"
      and active = True and ?t0.0 = 0 and q = 0 and delay = None, OF refl]
  by (simp add: reporter_defs runtime_defs)

section \<open>Joined operations: the proofs\<close>

lemma run_append: "run (es @ es') w = run es' (run es w)"
  by (induction es arbitrary: w) simp_all

lemma scoped_showWhile_fresh:
  "type_of (progressState w) \<noteq> WhileType \<Longrightarrow>
   scoped_showWhile p delay w =
     (length (heap w),
      then_reaction p (ScopedStop p (length (heap w)))
        (snd (newPromise (Then p) 0
          (doShowWhile delay
            (w\<lparr>progressState := WhileProgressState p (delay_or_0 delay) (now w)\<rparr>)))))"
  by (cases "progressState w") (simp_all add: scoped_showWhile_def delay_or_0_def split_beta Let_def)

lemma scoped_showWhile_join:
  "progressState w = WhileProgressState q st d \<Longrightarrow>
   scoped_showWhile p delay w =
     (Suc (length (heap w)),
      then_reaction (length (heap w)) (ScopedStop (length (heap w)) (Suc (length (heap w))))
        (snd (newPromise (Then (length (heap w))) 0
          (doShowWhile delay
            ((snd (Promise_all p q w))
               \<lparr>progressState := WhileProgressState (length (heap w)) (delay_or_0 delay) (now w)\<rparr>)))))"
  by (simp add: scoped_showWhile_def delay_or_0_def split_beta Let_def)

lemmas scenario_defs =
  step_def scoped_showWhile_fresh scoped_showWhile_join doShowWhile_def bar_def newPromise_def
  settle_def then_reaction_def Promise_all_def stop_def Let_def

lemma show_both_world:
  assumes "type_of s \<noteq> WhileType"
  shows "run (show_both dA dB) (reporter sid a t0 calls s) =
    \<lparr>heap =
       [\<lparr>origin = Caller, settled = None,
          reactions = [ScopedStop 0 2, AllElement 3], remaining = 0\<rparr>,
        \<lparr>origin = Caller, settled = None, reactions = [AllElement 3], remaining = 0\<rparr>,
        \<lparr>origin = Then 0, settled = None, reactions = [], remaining = 0\<rparr>,
        \<lparr>origin = All 1 0, settled = None, reactions = [ScopedStop 3 4], remaining = 2\<rparr>,
        \<lparr>origin = Then 3, settled = None, reactions = [], remaining = 0\<rparr>],
     jobs = [], now = t0,
     progressbar = calls @ (if a then [(t0, BarInfinite), (t0, BarShow dA),
                                       (t0, BarInfinite), (t0, BarShow dB)] else []),
     scopeId = sid, isActive = a,
     progressState = WhileProgressState 3 (delay_or_0 dB) t0\<rparr>"
  using assms
  by (cases a; intro world.equality; simp add: show_both_def reporter_def scenario_defs)

lemma A_first_world:
  assumes "type_of s \<noteq> WhileType"
  shows "run (show_both dA dB @ [Tick t1, Settle 0 Fulfilled]) (reporter sid a t0 calls s) =
    \<lparr>heap =
       [\<lparr>origin = Caller, settled = Some (Fulfilled, t1), reactions = [], remaining = 0\<rparr>,
        \<lparr>origin = Caller, settled = None, reactions = [AllElement 3], remaining = 0\<rparr>,
        \<lparr>origin = Then 0, settled = Some (Fulfilled, t1), reactions = [], remaining = 0\<rparr>,
        \<lparr>origin = All 1 0, settled = None, reactions = [ScopedStop 3 4], remaining = 1\<rparr>,
        \<lparr>origin = Then 3, settled = None, reactions = [], remaining = 0\<rparr>],
     jobs = [], now = t1,
     progressbar = calls @ (if a then [(t0, BarInfinite), (t0, BarShow dA),
                                       (t0, BarInfinite), (t0, BarShow dB)] else []),
     scopeId = sid, isActive = a,
     progressState = WhileProgressState 3 (delay_or_0 dB) t0\<rparr>"
  apply (subst run_append)
  apply (subst show_both_world [OF assms])
  apply (cases a; intro world.equality; simp add: scenario_defs)
  done

lemma A_then_B_world:
  assumes "type_of s \<noteq> WhileType"
  shows "run ((show_both dA dB @ [Tick t1, Settle 0 Fulfilled]) @ [Tick t2, Settle 1 oc])
           (reporter sid a t0 calls s) =
    \<lparr>heap =
       [\<lparr>origin = Caller, settled = Some (Fulfilled, t1), reactions = [], remaining = 0\<rparr>,
        \<lparr>origin = Caller, settled = Some (oc, t2), reactions = [], remaining = 0\<rparr>,
        \<lparr>origin = Then 0, settled = Some (Fulfilled, t1), reactions = [], remaining = 0\<rparr>,
        \<lparr>origin = All 1 0, settled = Some (oc, t2), reactions = [],
           remaining = (case oc of Fulfilled \<Rightarrow> 0 | Rejected \<Rightarrow> 1)\<rparr>,
        \<lparr>origin = Then 3, settled = Some (Fulfilled, t2), reactions = [], remaining = 0\<rparr>],
     jobs = [], now = t2,
     progressbar = calls @ (if a then [(t0, BarInfinite), (t0, BarShow dA),
                                       (t0, BarInfinite), (t0, BarShow dB),
                                       (t2, BarStop), (t2, BarHide)] else []),
     scopeId = sid, isActive = a,
     progressState = NoneProgressState\<rparr>"
  apply (subst run_append)
  apply (subst A_first_world [OF assms])
  apply (cases a; cases oc; intro world.equality; simp add: scenario_defs)
  done

lemma B_first_world:
  assumes "type_of s \<noteq> WhileType"
  shows "run (show_both dA dB @ [Tick t1, Settle 1 Fulfilled]) (reporter sid a t0 calls s) =
    \<lparr>heap =
       [\<lparr>origin = Caller, settled = None, reactions = [ScopedStop 0 2, AllElement 3], remaining = 0\<rparr>,
        \<lparr>origin = Caller, settled = Some (Fulfilled, t1), reactions = [], remaining = 0\<rparr>,
        \<lparr>origin = Then 0, settled = None, reactions = [], remaining = 0\<rparr>,
        \<lparr>origin = All 1 0, settled = None, reactions = [ScopedStop 3 4], remaining = 1\<rparr>,
        \<lparr>origin = Then 3, settled = None, reactions = [], remaining = 0\<rparr>],
     jobs = [], now = t1,
     progressbar = calls @ (if a then [(t0, BarInfinite), (t0, BarShow dA),
                                       (t0, BarInfinite), (t0, BarShow dB)] else []),
     scopeId = sid, isActive = a,
     progressState = WhileProgressState 3 (delay_or_0 dB) t0\<rparr>"
  apply (subst run_append)
  apply (subst show_both_world [OF assms])
  apply (cases a; intro world.equality; simp add: scenario_defs)
  done

lemma B_then_A_world:
  assumes "type_of s \<noteq> WhileType"
  shows "run ((show_both dA dB @ [Tick t1, Settle 1 Fulfilled]) @ [Tick t2, Settle 0 oc])
           (reporter sid a t0 calls s) =
    \<lparr>heap =
       [\<lparr>origin = Caller, settled = Some (oc, t2), reactions = [], remaining = 0\<rparr>,
        \<lparr>origin = Caller, settled = Some (Fulfilled, t1), reactions = [], remaining = 0\<rparr>,
        \<lparr>origin = Then 0, settled = Some (Fulfilled, t2), reactions = [], remaining = 0\<rparr>,
        \<lparr>origin = All 1 0, settled = Some (oc, t2), reactions = [],
           remaining = (case oc of Fulfilled \<Rightarrow> 0 | Rejected \<Rightarrow> 1)\<rparr>,
        \<lparr>origin = Then 3, settled = Some (Fulfilled, t2), reactions = [], remaining = 0\<rparr>],
     jobs = [], now = t2,
     progressbar = calls @ (if a then [(t0, BarInfinite), (t0, BarShow dA),
                                       (t0, BarInfinite), (t0, BarShow dB),
                                       (t2, BarStop), (t2, BarHide)] else []),
     scopeId = sid, isActive = a,
     progressState = NoneProgressState\<rparr>"
  apply (subst run_append)
  apply (subst B_first_world [OF assms])
  apply (cases a; cases oc; intro world.equality; simp add: scenario_defs)
  done

lemma A_future_first:
  assumes "type_of s \<noteq> WhileType"
  shows "settled (heap (run (show_both dA dB @ [Tick t1, Settle 0 oc])
           (reporter sid a t0 calls s)) ! 2) = Some (Fulfilled, t1)"
  unfolding run_append show_both_world [OF assms]
  by (cases a; cases oc; simp add: scenario_defs)


lemma B_rejected_first_world:
  assumes "type_of s \<noteq> WhileType"
  shows "run (show_both dA dB @ [Tick t1, Settle 1 Rejected]) (reporter sid a t0 calls s) =
    \<lparr>heap =
       [\<lparr>origin = Caller, settled = None,
          reactions = [ScopedStop 0 2, AllElement 3], remaining = 0\<rparr>,
        \<lparr>origin = Caller, settled = Some (Rejected, t1), reactions = [], remaining = 0\<rparr>,
        \<lparr>origin = Then 0, settled = None, reactions = [], remaining = 0\<rparr>,
        \<lparr>origin = All 1 0, settled = Some (Rejected, t1), reactions = [], remaining = 2\<rparr>,
        \<lparr>origin = Then 3, settled = Some (Fulfilled, t1), reactions = [], remaining = 0\<rparr>],
     jobs = [], now = t1,
     progressbar = calls @ (if a then [(t0, BarInfinite), (t0, BarShow dA),
                                       (t0, BarInfinite), (t0, BarShow dB),
                                       (t1, BarStop), (t1, BarHide)] else []),
     scopeId = sid, isActive = a,
     progressState = NoneProgressState\<rparr>"
  apply (subst run_append)
  apply (subst show_both_world [OF assms])
  apply (cases a; intro world.equality; simp add: scenario_defs)
  done

lemma A_future_second:
  assumes "type_of s \<noteq> WhileType"
  shows "settled (heap (run (show_both dA dB @ [Tick t1, Settle 1 ocB])
           (reporter sid a t0 calls s)) ! 2) = None \<and>
         settled (heap (run ((show_both dA dB @ [Tick t1, Settle 1 ocB]) @ [Tick t2, Settle 0 oc])
           (reporter sid a t0 calls s)) ! 2) = Some (Fulfilled, t2)"
proof (cases ocB)
  case Fulfilled
  show ?thesis
    unfolding Fulfilled B_first_world [OF assms] B_then_A_world [OF assms] by simp
next
  case Rejected
  have "settled (heap (run [Tick t2, Settle 0 oc]
      (run (show_both dA dB @ [Tick t1, Settle 1 Rejected]) (reporter sid a t0 calls s))) ! 2) =
      Some (Fulfilled, t2)"
    unfolding B_rejected_first_world [OF assms]
    by (cases a; cases oc; simp add: scenario_defs)
  moreover have "settled (heap (run (show_both dA dB @ [Tick t1, Settle 1 Rejected])
      (reporter sid a t0 calls s)) ! 2) = None"
    unfolding B_rejected_first_world [OF assms] by simp
  ultimately show ?thesis
    unfolding Rejected run_append [of "show_both dA dB @ [Tick t1, Settle 1 Rejected]"]
    by (rule conjI [rotated])
qed

text \<open>
  C2 (amended). \<open>showWhile(B)\<close> called while \<open>showWhile(A)\<close> is pending, with no other
  call on the reporter until both have settled, tracks the join of \<open>B\<close> and \<open>A\<close>
  (promise 3); the future returned for \<open>A\<close> (promise 2) still tracks \<open>A\<close> alone. When
  the operation that settles first is fulfilled, at \<open>t1\<close>, and the other one settles with
  any outcome \<open>oc\<close> at \<open>t2\<close>:
  \<^item> the future returned for \<open>B\<close> (promise 4) is pending after the first settlement and
    is fulfilled at \<open>t2\<close>;
  \<^item> the widget receives nothing at the first settlement, and \<open>stop().hide()\<close> once, at
    \<open>t2\<close>, if the reporter is active.

  Whatever the two outcomes \<open>oc1\<close> and \<open>oc\<close> and whichever settles first, the future
  returned for \<open>A\<close> is pending until \<open>A\<close> settles and is fulfilled at the time \<open>A\<close>
  settles.
\<close>

theorem C2_joined_showWhile:
  assumes "type_of s \<noteq> WhileType"
  shows
    "origin (heap (run (show_both dA dB) (reporter sid a t0 calls s)) ! 2) = Then 0 \<and>
     origin (heap (run (show_both dA dB) (reporter sid a t0 calls s)) ! 3) = All 1 0 \<and>
     origin (heap (run (show_both dA dB) (reporter sid a t0 calls s)) ! 4) = Then 3 \<and>
     progressState (run (show_both dA dB) (reporter sid a t0 calls s)) =
       WhileProgressState 3 (delay_or_0 dB) t0 \<and>
     settled (heap (run (show_both dA dB @ [Tick t1, Settle 0 Fulfilled])
       (reporter sid a t0 calls s)) ! 2) = Some (Fulfilled, t1) \<and>
     settled (heap (run (show_both dA dB @ [Tick t1, Settle 0 Fulfilled])
       (reporter sid a t0 calls s)) ! 4) = None \<and>
     progressbar (run (show_both dA dB @ [Tick t1, Settle 0 Fulfilled])
       (reporter sid a t0 calls s)) =
       progressbar (run (show_both dA dB) (reporter sid a t0 calls s)) \<and>
     settled (heap (run ((show_both dA dB @ [Tick t1, Settle 0 Fulfilled]) @ [Tick t2, Settle 1 oc])
       (reporter sid a t0 calls s)) ! 4) = Some (Fulfilled, t2) \<and>
     progressbar (run ((show_both dA dB @ [Tick t1, Settle 0 Fulfilled]) @ [Tick t2, Settle 1 oc])
       (reporter sid a t0 calls s)) =
       progressbar (run (show_both dA dB) (reporter sid a t0 calls s)) @
         (if a then [(t2, BarStop), (t2, BarHide)] else []) \<and>
     settled (heap (run (show_both dA dB @ [Tick t1, Settle 1 Fulfilled])
       (reporter sid a t0 calls s)) ! 2) = None \<and>
     settled (heap (run (show_both dA dB @ [Tick t1, Settle 1 Fulfilled])
       (reporter sid a t0 calls s)) ! 4) = None \<and>
     progressbar (run (show_both dA dB @ [Tick t1, Settle 1 Fulfilled])
       (reporter sid a t0 calls s)) =
       progressbar (run (show_both dA dB) (reporter sid a t0 calls s)) \<and>
     settled (heap (run ((show_both dA dB @ [Tick t1, Settle 1 Fulfilled]) @ [Tick t2, Settle 0 oc])
       (reporter sid a t0 calls s)) ! 2) = Some (Fulfilled, t2) \<and>
     settled (heap (run ((show_both dA dB @ [Tick t1, Settle 1 Fulfilled]) @ [Tick t2, Settle 0 oc])
       (reporter sid a t0 calls s)) ! 4) = Some (Fulfilled, t2) \<and>
     progressbar (run ((show_both dA dB @ [Tick t1, Settle 1 Fulfilled]) @ [Tick t2, Settle 0 oc])
       (reporter sid a t0 calls s)) =
       progressbar (run (show_both dA dB) (reporter sid a t0 calls s)) @
         (if a then [(t2, BarStop), (t2, BarHide)] else []) \<and>
     settled (heap (run (show_both dA dB @ [Tick t1, Settle 0 oc1])
       (reporter sid a t0 calls s)) ! 2) = Some (Fulfilled, t1) \<and>
     settled (heap (run (show_both dA dB @ [Tick t1, Settle 1 oc1])
       (reporter sid a t0 calls s)) ! 2) = None \<and>
     settled (heap (run ((show_both dA dB @ [Tick t1, Settle 1 oc1]) @ [Tick t2, Settle 0 oc])
       (reporter sid a t0 calls s)) ! 2) = Some (Fulfilled, t2)"
proof -
  have "origin (heap (run (show_both dA dB) (reporter sid a t0 calls s)) ! 2) = Then 0 \<and>
     origin (heap (run (show_both dA dB) (reporter sid a t0 calls s)) ! 3) = All 1 0 \<and>
     origin (heap (run (show_both dA dB) (reporter sid a t0 calls s)) ! 4) = Then 3 \<and>
     progressState (run (show_both dA dB) (reporter sid a t0 calls s)) =
       WhileProgressState 3 (delay_or_0 dB) t0 \<and>
     settled (heap (run (show_both dA dB @ [Tick t1, Settle 0 Fulfilled])
       (reporter sid a t0 calls s)) ! 2) = Some (Fulfilled, t1) \<and>
     settled (heap (run (show_both dA dB @ [Tick t1, Settle 0 Fulfilled])
       (reporter sid a t0 calls s)) ! 4) = None \<and>
     progressbar (run (show_both dA dB @ [Tick t1, Settle 0 Fulfilled])
       (reporter sid a t0 calls s)) =
       progressbar (run (show_both dA dB) (reporter sid a t0 calls s)) \<and>
     settled (heap (run ((show_both dA dB @ [Tick t1, Settle 0 Fulfilled]) @ [Tick t2, Settle 1 oc])
       (reporter sid a t0 calls s)) ! 4) = Some (Fulfilled, t2) \<and>
     progressbar (run ((show_both dA dB @ [Tick t1, Settle 0 Fulfilled]) @ [Tick t2, Settle 1 oc])
       (reporter sid a t0 calls s)) =
       progressbar (run (show_both dA dB) (reporter sid a t0 calls s)) @
         (if a then [(t2, BarStop), (t2, BarHide)] else []) \<and>
     settled (heap (run (show_both dA dB @ [Tick t1, Settle 1 Fulfilled])
       (reporter sid a t0 calls s)) ! 2) = None \<and>
     settled (heap (run (show_both dA dB @ [Tick t1, Settle 1 Fulfilled])
       (reporter sid a t0 calls s)) ! 4) = None \<and>
     progressbar (run (show_both dA dB @ [Tick t1, Settle 1 Fulfilled])
       (reporter sid a t0 calls s)) =
       progressbar (run (show_both dA dB) (reporter sid a t0 calls s)) \<and>
     settled (heap (run ((show_both dA dB @ [Tick t1, Settle 1 Fulfilled]) @ [Tick t2, Settle 0 oc])
       (reporter sid a t0 calls s)) ! 2) = Some (Fulfilled, t2) \<and>
     settled (heap (run ((show_both dA dB @ [Tick t1, Settle 1 Fulfilled]) @ [Tick t2, Settle 0 oc])
       (reporter sid a t0 calls s)) ! 4) = Some (Fulfilled, t2) \<and>
     progressbar (run ((show_both dA dB @ [Tick t1, Settle 1 Fulfilled]) @ [Tick t2, Settle 0 oc])
       (reporter sid a t0 calls s)) =
       progressbar (run (show_both dA dB) (reporter sid a t0 calls s)) @
         (if a then [(t2, BarStop), (t2, BarHide)] else [])"
    unfolding show_both_world [OF assms] A_first_world [OF assms] A_then_B_world [OF assms]
      B_first_world [OF assms] B_then_A_world [OF assms]
    by simp
  with A_future_first [OF assms, of dA dB t1 oc1 sid a t0 calls]
    A_future_second [OF assms, of dA dB t1 oc1 sid a t0 calls t2 oc]
  show ?thesis by blast
qed

theorem C2_joined_showWhile_witness:
  "type_of NoneProgressState \<noteq> WhileType \<and>
   settled (heap (run (show_both None None @ [Tick 5, Settle 1 Fulfilled])
     (reporter (Id ''panel'') True 0 [] NoneProgressState)) ! 4) = None \<and>
   progressbar (run (show_both None None @ [Tick 5, Settle 1 Fulfilled])
     (reporter (Id ''panel'') True 0 [] NoneProgressState)) =
     [(0, BarInfinite), (0, BarShow None), (0, BarInfinite), (0, BarShow None)] \<and>
   settled (heap (run ((show_both None None @ [Tick 5, Settle 1 Fulfilled]) @ [Tick 10, Settle 0 Rejected])
     (reporter (Id ''panel'') True 0 [] NoneProgressState)) ! 4) = Some (Fulfilled, 10) \<and>
   progressbar (run ((show_both None None @ [Tick 5, Settle 1 Fulfilled]) @ [Tick 10, Settle 0 Rejected])
     (reporter (Id ''panel'') True 0 [] NoneProgressState)) =
     [(0, BarInfinite), (0, BarShow None), (0, BarInfinite), (0, BarShow None),
      (10, BarStop), (10, BarHide)]"
proof -
  have h: "type_of NoneProgressState \<noteq> WhileType" by simp
  from C2_joined_showWhile [OF h, where dA = None and dB = None and sid = "Id ''panel''"
      and a = True and ?t0.0 = 0 and calls = "[]" and ?t1.0 = 5 and ?t2.0 = 10
      and oc = Rejected and ?oc1.0 = Fulfilled] h
  show ?thesis by (simp add: show_both_world [OF h])
qed

text \<open>
  C2 as stated fails. When \<open>A\<close> is fulfilled at 5 and \<open>B\<close> is still pending, the future
  returned for \<open>A\<close> is already fulfilled at 5. And in the example of the spec, where \<open>B\<close>
  is rejected at 5 and \<open>A\<close> is fulfilled at 10, \<open>Promise.all\<close> rejects the join at 5: the
  future returned for \<open>B\<close> is fulfilled at 5, while \<open>A\<close> is pending, and the widget is
  stopped at 5 and again at 10.
\<close>

theorem C2_joined_showWhile_counterexample:
  "settled (heap (run (show_both None None @ [Tick 5, Settle 0 Fulfilled])
     (ScopedProgressService (Id ''panel'') True 0)) ! 2) = Some (Fulfilled, 5) \<and>
   settled (heap (run (show_both None None @ [Tick 5, Settle 0 Fulfilled])
     (ScopedProgressService (Id ''panel'') True 0)) ! 1) = None \<and>
   settled (heap (run (show_both None None @ [Tick 5, Settle 1 Rejected])
     (ScopedProgressService (Id ''panel'') True 0)) ! 4) = Some (Fulfilled, 5) \<and>
   settled (heap (run (show_both None None @ [Tick 5, Settle 1 Rejected])
     (ScopedProgressService (Id ''panel'') True 0)) ! 0) = None \<and>
   progressbar (run (show_both None None @ [Tick 5, Settle 1 Rejected, Tick 10, Settle 0 Fulfilled])
     (ScopedProgressService (Id ''panel'') True 0)) =
     [(0, BarInfinite), (0, BarShow None), (0, BarInfinite), (0, BarShow None),
      (5, BarStop), (5, BarHide), (10, BarStop), (10, BarHide)]"
  by (simp add: show_both_def reporter_defs runtime_defs)

section \<open>Deactivation and reactivation: the proofs\<close>

lemma list_all_update:
  "list_all P xs \<Longrightarrow> P x \<Longrightarrow> list_all P (xs[i := x])"
  by (induction xs arbitrary: i) (auto split: nat.splits)

lemma list_all_nth: "list_all P xs \<Longrightarrow> i < length xs \<Longrightarrow> P (xs ! i)"
  by (simp add: list_all_length)

lemma scoped_only_cong:
  "heap w' = heap w \<Longrightarrow> jobs w' = jobs w \<Longrightarrow> scoped_only w' = scoped_only w"
  by (simp add: scoped_only_def)

lemma scoped_only_settle:
  assumes "scoped_only w"
  shows "scoped_only (settle p oc w)"
proof (cases "p < length (heap w) \<and> settled (heap w ! p) = None")
  case True
  from assms have j: "list_all (\<lambda>j. scoped_reaction (fst j)) (jobs w)"
    and h: "list_all (\<lambda>c. list_all scoped_reaction (reactions c)) (heap w)"
    by (simp_all add: scoped_only_def)
  from list_all_nth [OF h, of p] True
  have "list_all scoped_reaction (reactions (heap w ! p))" by simp
  then have "list_all (\<lambda>j. scoped_reaction (fst j)) (map (\<lambda>r. (r, oc)) (reactions (heap w ! p)))"
    by (simp add: list_all_iff)
  moreover have "list_all (\<lambda>c. list_all scoped_reaction (reactions c))
      ((heap w)[p := (heap w ! p)\<lparr>settled := Some (oc, now w), reactions := []\<rparr>])"
    using h by (rule list_all_update) simp
  ultimately show ?thesis using True j by (simp add: scoped_only_def settle_def)
next
  case False
  then have "settle p oc w = w" by (rule settle_noop)
  with assms show ?thesis by simp
qed

lemma scoped_only_then_reaction:
  assumes "scoped_only w" and "scoped_reaction r"
  shows "scoped_only (then_reaction p r w)"
proof -
  from assms have j: "list_all (\<lambda>j. scoped_reaction (fst j)) (jobs w)"
    and h: "list_all (\<lambda>c. list_all scoped_reaction (reactions c)) (heap w)"
    by (simp_all add: scoped_only_def)
  consider (invalid) "\<not> p < length (heap w)"
    | (pending) "p < length (heap w)" "settled (heap w ! p) = None"
    | (settled) oc t where "p < length (heap w)" "settled (heap w ! p) = Some (oc, t)"
    by (cases "settled (heap w ! p)") auto
  then show ?thesis
  proof cases
    case invalid
    with assms show ?thesis by (simp add: then_reaction_cases)
  next
    case pending
    from list_all_nth [OF h, of p] pending
    have "list_all scoped_reaction (reactions (heap w ! p))" by simp
    with assms(2) have "list_all (\<lambda>c. list_all scoped_reaction (reactions c))
        ((heap w)[p := (heap w ! p)\<lparr>reactions := reactions (heap w ! p) @ [r]\<rparr>])"
      by (intro list_all_update [OF h]) simp
    with pending j show ?thesis by (simp add: then_reaction_cases scoped_only_def)
  next
    case settled
    with assms(2) j h show ?thesis by (simp add: then_reaction_cases scoped_only_def)
  qed
qed

lemma scoped_only_newPromise:
  "scoped_only w \<Longrightarrow> scoped_only (snd (newPromise org k w))"
  by (simp add: scoped_only_def)

lemma scoped_only_remaining:
  assumes "scoped_only w" and "r < length (heap w)"
  shows "scoped_only (w\<lparr>heap := (heap w)[r := (heap w ! r)\<lparr>remaining := k\<rparr>]\<rparr>)"
proof -
  from assms have h: "list_all (\<lambda>c. list_all scoped_reaction (reactions c)) (heap w)"
    by (simp add: scoped_only_def)
  from list_all_nth [OF h, of r] assms(2)
  have "list_all scoped_reaction (reactions (heap w ! r))" by simp
  then have "list_all (\<lambda>c. list_all scoped_reaction (reactions c))
      ((heap w)[r := (heap w ! r)\<lparr>remaining := k\<rparr>])"
    by (intro list_all_update [OF h]) simp
  with assms(1) show ?thesis by (simp add: scoped_only_def)
qed

lemma scoped_only_run_job:
  assumes "scoped_only w"
  shows "scoped_only (run_job j w)"
proof (cases "(j, w)" rule: run_job.cases)
  case (1 p d oc w')
  have "scoped_only (stop p w)" using assms by (simp add: scoped_only_def)
  with 1 show ?thesis by (simp add: scoped_only_settle)
next
  case (2 d oc w')
  have "scoped_only (bar [BarStop, BarHide] w)" using assms by (simp add: scoped_only_def)
  with 2 show ?thesis by (simp add: scoped_only_settle)
next
  case (3 r w')
  with assms show ?thesis by (simp add: scoped_only_settle)
next
  case (4 r w')
  with assms show ?thesis
    by (simp add: Let_def scoped_only_settle scoped_only_remaining)
qed

lemma inactive_run_job:
  "\<not> isActive w \<Longrightarrow> scoped_reaction (fst j) \<Longrightarrow> progressbar (run_job j w) = progressbar w"
  by (cases "(j, w)" rule: run_job.cases) (simp_all add: stop_def Let_def)

lemma inactive_drain:
  "\<not> isActive w \<Longrightarrow> scoped_only w \<Longrightarrow>
   progressbar (drain w) = progressbar w \<and> scoped_only (drain w)"
proof (induction w rule: drain.induct)
  case (1 w)
  show ?case
  proof (cases "jobs w")
    case Nil
    with 1 show ?thesis by simp
  next
    case (Cons j js)
    let ?w = "w\<lparr>jobs := js\<rparr>"
    from "1.prems" Cons have s: "scoped_only ?w" and j: "scoped_reaction (fst j)"
      by (simp_all add: scoped_only_def)
    from "1.prems" have a: "\<not> isActive ?w" by simp
    from s have "scoped_only (run_job j ?w)" by (rule scoped_only_run_job)
    moreover from a have "\<not> isActive (run_job j ?w)" by simp
    ultimately have "progressbar (drain (run_job j ?w)) = progressbar (run_job j ?w) \<and>
        scoped_only (drain (run_job j ?w))"
      using Cons by (intro "1.IH") simp_all
    with inactive_run_job [OF a j] Cons show ?thesis by simp
  qed
qed

lemma scoped_only_Promise_all: "scoped_only w \<Longrightarrow> scoped_only (snd (Promise_all p q w))"
  by (simp add: Promise_all_def split_beta scoped_only_then_reaction scoped_only_newPromise)

lemma inactive_showWhile:
  assumes "\<not> isActive w" and "scoped_only w"
  shows "progressbar (snd (scoped_showWhile p delay w)) = progressbar w \<and>
         isActive (snd (scoped_showWhile p delay w)) = isActive w \<and>
         scopeId (snd (scoped_showWhile p delay w)) = scopeId w \<and>
         scoped_only (snd (scoped_showWhile p delay w))"
proof (cases "type_of (progressState w) = WhileType")
  case False
  have "scoped_only (then_reaction p (ScopedStop p (length (heap w)))
      (snd (newPromise (Then p) 0
        (doShowWhile delay
          (w\<lparr>progressState := WhileProgressState p (delay_or_0 delay) (now w)\<rparr>)))))"
    using assms(2)
    by (intro scoped_only_then_reaction scoped_only_newPromise) (simp_all add: scoped_only_def)
  with False assms(1) show ?thesis
    by (simp add: scoped_showWhile_fresh doShowWhile_def)
next
  case True
  then obtain q st d where s: "progressState w = WhileProgressState q st d"
    by (cases "progressState w") simp_all
  let ?w1 = "(snd (Promise_all p q w))
      \<lparr>progressState := WhileProgressState (length (heap w)) (delay_or_0 delay) (now w)\<rparr>"
  from assms(2) have "scoped_only (snd (Promise_all p q w))" by (rule scoped_only_Promise_all)
  then have "scoped_only (doShowWhile delay ?w1)" by (simp add: scoped_only_def)
  then have "scoped_only (then_reaction (length (heap w))
      (ScopedStop (length (heap w)) (Suc (length (heap w))))
      (snd (newPromise (Then (length (heap w))) 0 (doShowWhile delay ?w1))))"
    by (intro scoped_only_then_reaction scoped_only_newPromise) simp_all
  with assms(1) show ?thesis
    by (simp add: scoped_showWhile_join [OF s] doShowWhile_def)
qed

lemma inactive_call:
  assumes a: "\<not> isActive w" and s: "scoped_only w" and e: "stays_closed (scopeId w) e"
  shows "progressbar (call e w) = progressbar w \<and> \<not> isActive (call e w) \<and>
         scopeId (call e w) = scopeId w \<and> scoped_only (call e w)"
proof (cases e)
  case (Tick t)
  with a s show ?thesis by (simp add: scoped_only_def)
next
  case Create
  with a s show ?thesis by (simp add: scoped_only_newPromise)
next
  case (Settle p oc)
  with a s show ?thesis by (simp add: scoped_only_settle)
next
  case (ScopeOpened sid)
  with a s e show ?thesis by (simp add: onScopeOpened_def)
next
  case (ScopeClosed sid)
  with a s show ?thesis by (simp add: onScopeClosed_def onScopeDeactivated_def scoped_only_def)
next
  case (Show x delay)
  with a s show ?thesis by (simp add: scoped_show_def scoped_only_def Let_def)
next
  case (HandleTotal n)
  with a s show ?thesis by (simp add: handle_total_def scoped_only_def Let_def)
next
  case (HandleWorked hasTotal n)
  with a s show ?thesis by (simp add: handle_worked_def scoped_only_def Let_def)
next
  case HandleDone
  with a s show ?thesis by (simp add: handle_done_def scoped_only_def Let_def)
next
  case (ShowWhile p delay)
  with a s inactive_showWhile [OF a s, of p delay] show ?thesis by simp
qed (use e in simp_all)

lemma inactive_run:
  "\<not> isActive w \<Longrightarrow> scoped_only w \<Longrightarrow> list_all (stays_closed (scopeId w)) es \<Longrightarrow>
   progressbar (run es w) = progressbar w \<and> \<not> isActive (run es w)"
proof (induction es arbitrary: w)
  case Nil
  then show ?case by simp
next
  case (Cons e es)
  from Cons.prems have e: "stays_closed (scopeId w) e" by simp
  note c = inactive_call [OF Cons.prems(1,2) e]
  from c have d: "progressbar (step e w) = progressbar w \<and> scoped_only (step e w)"
    using inactive_drain [of "call e w"] by (simp add: step_def)
  from c have "\<not> isActive (step e w)" and "scopeId (step e w) = scopeId w"
    by (simp_all add: step_def)
  with d Cons.prems(3) have "progressbar (run es (step e w)) = progressbar (step e w) \<and>
      \<not> isActive (run es (step e w))"
    by (intro Cons.IH) simp_all
  with d show ?case by simp
qed

lemma reactivation_replay:
  "onScopeActivated ((onScopeDeactivated w)\<lparr>now := t\<rparr>) =
     bar (replay (progressState w) t) (w\<lparr>isActive := True, now := t\<rparr>)"
  by (cases "progressState w")
     (simp_all add: onScopeActivated_def onScopeDeactivated_def doShowWhile_def
        remainingDelay_def bar_def Let_def)

text \<open>
  C3 (amended). While a scoped reporter is inactive the widget receives no call from
  it: whatever is called on it, whatever settles, until its own scope opens, the
  widget's calls are what they were. Deactivation followed by reactivation when the
  clock reads \<open>t\<close>, with no call in between, leaves the state as it was and sends the
  widget the replay of that state, on top of what the widget has been sent before:
  nothing for \<open>None\<close> and \<open>Done\<close>, \<open>infinite().show(d)\<close> for \<open>While\<close>,
  \<open>infinite().show()\<close> without a delay for \<open>Infinite\<close>, and for \<open>Work\<close>
  \<open>total(n).show()\<close> if the total is not zero, then \<open>worked(k).show()\<close> if \<open>worked\<close>
  is not zero.
\<close>

theorem C3_inactive_then_replay:
  assumes "\<not> isActive w" and "scoped_only w" and "list_all (stays_closed (scopeId w)) es"
  shows "progressbar (run es w) = progressbar w \<and>
         progressState (onScopeActivated ((onScopeDeactivated w')\<lparr>now := t\<rparr>)) =
           progressState w' \<and>
         progressbar (onScopeActivated ((onScopeDeactivated w')\<lparr>now := t\<rparr>)) =
           progressbar w' @ map (\<lambda>c. (t, c)) (replay (progressState w') t) \<and>
         onScopeActivated ((onScopeDeactivated w')\<lparr>now := t\<rparr>) =
           bar (replay (progressState w') t) (w'\<lparr>isActive := True, now := t\<rparr>)"
  using inactive_run [OF assms] by (simp add: reactivation_replay)

theorem C3_inactive_then_replay_witness:
  "\<not> isActive (ScopedProgressService (Id ''panel'') False 0) \<and>
   scoped_only (ScopedProgressService (Id ''panel'') False 0) \<and>
   list_all (stays_closed (scopeId (ScopedProgressService (Id ''panel'') False 0)))
     [Show (Inr 10) None, HandleWorked False 3, Create, ShowWhile 0 (Some 5), Settle 0 Rejected,
      HandleDone] \<and>
   progressbar (run [Show (Inr 10) None, HandleWorked False 3, Create, ShowWhile 0 (Some 5),
      Settle 0 Rejected, HandleDone] (ScopedProgressService (Id ''panel'') False 0)) = [] \<and>
   progressbar (onScopeActivated ((onScopeDeactivated
      (run [Show (Inr 10) None, HandleWorked True 3] (ScopedProgressService (Id ''panel'') True 0)))
        \<lparr>now := 7\<rparr>))
     = [(0, BarTotal 10), (0, BarShow None), (0, BarWorked 3),
        (7, BarTotal 10), (7, BarShow None), (7, BarWorked 3), (7, BarShow None)]"
  using C3_inactive_then_replay [where w = "ScopedProgressService (Id ''panel'') False 0"
    and es = "[Show (Inr 10) None, HandleWorked False 3, Create, ShowWhile 0 (Some 5),
      Settle 0 Rejected, HandleDone]"
    and w' = "run [Show (Inr 10) None, HandleWorked True 3]
      (ScopedProgressService (Id ''panel'') True 0)"
    and t = 7]
  by (simp add: scoped_only_def reporter_defs runtime_defs)

text \<open>
  C3 as stated fails. An active reporter takes \<open>show(true, 1000)\<close> when the clock reads
  0: the widget is to be revealed at 1000. Had the scope been closed and opened again
  at once, the replay would have sent \<open>infinite().show()\<close>, and the widget would be
  revealed at 0. And when two operations overlap on an active reporter, \<open>show(10)\<close>,
  \<open>show(20)\<close>, \<open>done()\<close> for the first and \<open>total(5)\<close> for the second, the widget ends
  hidden; with the scope closed and opened again after these calls, the replay of
  \<open>Work\<close> reveals it.
\<close>

theorem C3_replay_counterexample:
  "reveal_time None (progressbar (run [Show (Inl True) (Some 1000)]
      (ScopedProgressService (Id ''panel'') True 0))) = Some 1000 \<and>
   reveal_time None (progressbar (run [Show (Inl True) (Some 1000),
      ScopeClosed (Id ''panel''), ScopeOpened (Id ''panel'')]
      (ScopedProgressService (Id ''panel'') True 0))) = Some 0 \<and>
   reveal_time None (progressbar (run [Show (Inr 10) None, Show (Inr 20) None, HandleDone,
      HandleTotal 5] (ScopedProgressService (Id ''panel'') True 0))) = None \<and>
   reveal_time None (progressbar (run [Show (Inr 10) None, Show (Inr 20) None, HandleDone,
      HandleTotal 5, ScopeClosed (Id ''panel''), ScopeOpened (Id ''panel'')]
      (ScopedProgressService (Id ''panel'') True 0))) = Some 0"
  by (simp add: reporter_defs runtime_defs)

section \<open>The remaining delay\<close>

lemma showWhile_pending:
  assumes "type_of (progressState w) \<noteq> WhileType" and "jobs w = []"
    and "p < length (heap w)" and "settled (heap w ! p) = None"
  shows "jobs (call (ShowWhile p delay) w) = []"
    and "progressState (call (ShowWhile p delay) w) =
           WhileProgressState p (delay_or_0 delay) (now w)"
    and "now (call (ShowWhile p delay) w) = now w"
    and "scopeId (call (ShowWhile p delay) w) = scopeId w"
  using assms
  by (simp_all add: scoped_showWhile_fresh then_reaction_def nth_append)

lemma reopen_replays_remaining:
  assumes "progressState w = WhileProgressState q d t0" and "jobs w = []"
    and "0 < t0" and "e < d"
  shows "progressbar (run [ScopeClosed (scopeId w), Tick (t0 + e), ScopeOpened (scopeId w)] w) =
           progressbar w @ [(t0 + e, BarInfinite), (t0 + e, BarShow (Some (d - e)))]"
proof -
  have 2: "step (ScopeClosed (scopeId w)) w = onScopeDeactivated w"
    using assms(2) by (simp add: step_def onScopeClosed_def onScopeDeactivated_def)
  have 3: "step (Tick (t0 + e)) (onScopeDeactivated w) = (onScopeDeactivated w)\<lparr>now := t0 + e\<rparr>"
    using assms(2) by (simp add: step_def onScopeDeactivated_def)
  have 4: "step (ScopeOpened (scopeId w)) ((onScopeDeactivated w)\<lparr>now := t0 + e\<rparr>) =
      onScopeActivated ((onScopeDeactivated w)\<lparr>now := t0 + e\<rparr>)"
    using assms(1,2) by (simp add: step_def onScopeOpened_def onScopeDeactivated_def
        onScopeActivated_def doShowWhile_def Let_def)
  have 5: "progressbar (onScopeActivated ((onScopeDeactivated w)\<lparr>now := t0 + e\<rparr>)) =
      progressbar w @ [(t0 + e, BarInfinite), (t0 + e, BarShow (Some (d - e)))]"
    using assms(1,3,4)
    by (simp add: onScopeActivated_def onScopeDeactivated_def doShowWhile_def
        remainingDelay_def Let_def)
  from 2 3 4 5 show ?thesis by simp
qed

text \<open>
  C1. \<open>showWhile(operation, delay)\<close>, joining or not, called when the clock reads \<open>t0\<close>,
  leaves a \<open>While\<close> state that holds \<open>delay\<close> and \<open>t0\<close>. From a \<open>While\<close> state that holds
  \<open>delay\<close> and a clock reading \<open>t0 > 0\<close>, as every reading of \<open>Date.now()\<close> on a running
  system is, when the scope closes and opens again at \<open>t0 + e\<close> with \<open>e < delay\<close>, the
  replay sends the widget \<open>infinite().show(delay - e)\<close>: the remaining delay, not the
  whole one. So it is for a pending operation shown on a reporter that was not in a
  \<open>While\<close> state, from the call of \<open>showWhile\<close> to the replay.
\<close>

theorem C1_replay_remaining_delay:
  assumes "progressState w' = WhileProgressState q d t0" and "jobs w' = []"
    and "0 < t0" and "e < d"
    and "type_of (progressState w) \<noteq> WhileType" and "jobs w = []"
    and "p < length (heap w)" and "settled (heap w ! p) = None" and "now w = t0"
  shows "progressState (snd (scoped_showWhile p' (Some d) w'')) =
           WhileProgressState (whilePromise (progressState (snd (scoped_showWhile p' (Some d) w''))))
             d (now w'') \<and>
         progressbar (run [ScopeClosed (scopeId w'), Tick (t0 + e), ScopeOpened (scopeId w')] w') =
           progressbar w' @ [(t0 + e, BarInfinite), (t0 + e, BarShow (Some (d - e)))] \<and>
         progressState (run [ShowWhile p (Some d)] w) = WhileProgressState p d t0 \<and>
         progressbar (run [ShowWhile p (Some d), ScopeClosed (scopeId w), Tick (t0 + e),
             ScopeOpened (scopeId w)] w) =
           progressbar (run [ShowWhile p (Some d)] w) @
             [(t0 + e, BarInfinite), (t0 + e, BarShow (Some (d - e)))]"
proof -
  note s = showWhile_pending [OF assms(5-8), of "Some d"]
  let ?w1 = "step (ShowWhile p (Some d)) w"
  have 1: "?w1 = call (ShowWhile p (Some d)) w" using s(1) by (simp add: step_def)
  have st: "progressState ?w1 = WhileProgressState p d t0" and j: "jobs ?w1 = []"
    and sc: "scopeId ?w1 = scopeId w"
    unfolding 1 using s assms(9) by (simp_all add: delay_or_0_def)
  from reopen_replays_remaining [OF st j assms(3,4)] sc
  have "progressbar (run [ScopeClosed (scopeId w), Tick (t0 + e), ScopeOpened (scopeId w)] ?w1) =
      progressbar ?w1 @ [(t0 + e, BarInfinite), (t0 + e, BarShow (Some (d - e)))]"
    by simp
  moreover have "progressState (snd (scoped_showWhile p' (Some d) w'')) =
      WhileProgressState (whilePromise (progressState (snd (scoped_showWhile p' (Some d) w''))))
        d (now w'')"
    by (simp add: scoped_showWhile_state delay_or_0_def)
  ultimately show ?thesis
    using reopen_replays_remaining [OF assms(1-4)] st by simp
qed

theorem C1_replay_remaining_delay_witness:
  "progressState (run [ShowWhile 0 (Some 1000)]
      (run [Tick 7, Create] (ScopedProgressService (Id ''panel'') True 0))) =
     WhileProgressState 0 1000 7 \<and>
   progressbar (run [ShowWhile 0 (Some 1000), ScopeClosed (Id ''panel''), Tick 407,
      ScopeOpened (Id ''panel'')]
      (run [Tick 7, Create] (ScopedProgressService (Id ''panel'') True 0))) =
     [(7, BarInfinite), (7, BarShow (Some 1000)), (407, BarInfinite), (407, BarShow (Some 600))]"
proof -
  let ?w = "run [Tick 7, Create] (ScopedProgressService (Id ''panel'') True 0)"
  let ?w' = "run [ShowWhile 0 (Some 1000)] ?w"
  have w: "?w = \<lparr>heap = [\<lparr>origin = Caller, settled = None, reactions = [], remaining = 0\<rparr>],
      jobs = [], now = 7, progressbar = [], scopeId = Id ''panel'', isActive = True,
      progressState = NoneProgressState\<rparr>"
    by (simp add: reporter_defs runtime_defs)
  have h: "type_of (progressState ?w) \<noteq> WhileType" "jobs ?w = []" "0 < length (heap ?w)"
    "settled (heap ?w ! 0) = None" "now ?w = 7"
    unfolding w by simp_all
  have h': "progressState ?w' = WhileProgressState 0 1000 7" "jobs ?w' = []"
    unfolding w by (simp_all add: reporter_defs runtime_defs)
  have k: "(0::int) < 7" "(400::int) < 1000" by simp_all
  have b: "progressbar ?w' = [(7, BarInfinite), (7, BarShow (Some 1000))]"
    unfolding w by (simp add: reporter_defs runtime_defs)
  have n: "scopeId ?w = Id ''panel''" unfolding w by simp
  from C1_replay_remaining_delay [OF h' k h] b n show ?thesis by simp
qed

end
